theory Spec2Isabelle
  imports Main "HOL-Library.Word" "HOL-Library.Signed_Division"
begin

unbundle bit_operations_syntax

section \<open>Bytes and C strings\<close>

text \<open>
  A \<^verbatim>\<open>char\<close> is a byte.  A \<^verbatim>\<open>const char *\<close> is modelled by the bytes that lie in
  memory from the pointer onwards; the string it denotes ends at the first zero byte, or
  at the end of the list (the loaders \<^verbatim>\<open>readFileToString\<close> and \<^verbatim>\<open>readStdinToString\<close>
  store a zero byte behind the bytes they have read, and \<^verbatim>\<open>strdup\<close> behind its copy).
\<close>

type_synonym byte = "8 word"

definition NL :: byte where
  "NL = 10"

definition SP :: byte where
  "SP = 32"

definition c_str :: "byte list \<Rightarrow> byte list" where
  "c_str mem = takeWhile (\<lambda>c. c \<noteq> 0) mem"

text \<open>\<^verbatim>\<open>text[p]\<close>: the byte at index \<open>p\<close>; the terminator is read behind the last byte.\<close>

definition at :: "byte list \<Rightarrow> nat \<Rightarrow> byte" where
  "at mem p = (if p < length mem then mem ! p else 0)"

section \<open>The terminal probe\<close>

text \<open>
  \<^verbatim>\<open>getTerminalWidth\<close> asks the operating system with \<^verbatim>\<open>ioctl(STDOUT_FILENO, TIOCGWINSZ, &w)\<close>.
  The answer of the system is an input of the model: the return value of the call and the
  \<^verbatim>\<open>struct winsize\<close> it has filled in (four \<^verbatim>\<open>unsigned short\<close> fields).
\<close>

record winsize =
  ws_row :: "16 word"
  ws_col :: "16 word"
  ws_xpixel :: "16 word"
  ws_ypixel :: "16 word"

record ioctl_answer =
  ioctl_ret :: int
  ioctl_w :: winsize

definition getTerminalWidth :: "ioctl_answer \<Rightarrow> int" where
  "getTerminalWidth os =
     (if ioctl_ret os = -1 then 80
      else uint (ws_col (ioctl_w os)))"

section \<open>The width of a line\<close>

subsection \<open>The C library: \<^verbatim>\<open>mbrtowc\<close> and \<^verbatim>\<open>wcwidth\<close>\<close>

text \<open>
  Both functions belong to the C library, not to the repository, and what they answer
  depends on the locale that \<^verbatim>\<open>main\<close> takes from the environment
  (\<^verbatim>\<open>setlocale(LC_ALL, "")\<close>).  Both are parameters of everything below.  \<^verbatim>\<open>wcwidth\<close> is a
  table \<open>wcw\<close>; a negative value marks a character that is not printable.  The decoder is
  a record \<open>dec\<close> of the zeroed conversion state, which is what
  \<^verbatim>\<open>memset(&state, 0, sizeof(state))\<close> leaves in \<^verbatim>\<open>state\<close>, and of the function \<^verbatim>\<open>mbrtowc\<close>.
  A call \<^verbatim>\<open>mbrtowc(&wc, ptr, len, &state)\<close> is \<open>mbrtowc dec state s\<close>, where \<open>s\<close> is the
  window of the \<^verbatim>\<open>len\<close> bytes from \<^verbatim>\<open>ptr\<close> on, the only bytes the function may examine; it
  answers with the return value, the wide character stored in \<^verbatim>\<open>wc\<close> and the new
  conversion state.  \<open>MbInvalid\<close> is \<^verbatim>\<open>(size_t)-1\<close>, \<open>MbIncomplete\<close> is \<^verbatim>\<open>(size_t)-2\<close>, and
  \<open>MbBytes k\<close> is the number of bytes that complete the character, which is 0 for the null
  character and never more than \<^verbatim>\<open>len\<close>.
\<close>

datatype mbret = MbInvalid | MbIncomplete | MbBytes nat

record 'st decoder =
  zeroed :: 'st
  mbrtowc :: "'st \<Rightarrow> byte list \<Rightarrow> mbret \<times> nat \<times> 'st"

subsection \<open>\<^verbatim>\<open>getDisplayWidth\<close>\<close>

text \<open>
  The loop of \<^verbatim>\<open>getDisplayWidth\<close>.  \<^verbatim>\<open>ptr\<close> and \<^verbatim>\<open>len\<close> move together, so the loop state
  is the window \<open>s\<close> of the \<^verbatim>\<open>len\<close> bytes from \<^verbatim>\<open>ptr\<close> on, the conversion state and the
  running width.  \<^verbatim>\<open>int\<close> is modelled by \<open>int\<close>.
\<close>

function getDisplayWidth_loop ::
  "'st decoder \<Rightarrow> (nat \<Rightarrow> int) \<Rightarrow> 'st \<Rightarrow> byte list \<Rightarrow> int \<Rightarrow> int" where
  "getDisplayWidth_loop dec wcw state s width =
     (if s = [] then width
      else
        (case mbrtowc dec state s of
           (MbInvalid, wc, state') \<Rightarrow> getDisplayWidth_loop dec wcw (zeroed dec) (tl s) (width + 1)
         | (MbIncomplete, wc, state') \<Rightarrow> getDisplayWidth_loop dec wcw (zeroed dec) (tl s) (width + 1)
         | (MbBytes consumed, wc, state') \<Rightarrow>
             if consumed = 0 then width
             else
               (let char_width = (if wcw wc < 0 then 1 else wcw wc)
                in getDisplayWidth_loop dec wcw state' (drop consumed s) (width + char_width))))"
  by pat_completeness auto
termination
  by (relation "measure (\<lambda>(dec, wcw, state, s, width). length s)") auto

declare getDisplayWidth_loop.simps [simp del]

definition getDisplayWidth :: "'st decoder \<Rightarrow> (nat \<Rightarrow> int) \<Rightarrow> byte list \<Rightarrow> int" where
  "getDisplayWidth dec wcw str = getDisplayWidth_loop dec wcw (zeroed dec) (c_str str) 0"

text \<open>
  The hypothesis of claim C7, ``\<open>a\<close> ends on a code-point boundary'': reading \<open>a\<close> from the
  conversion state \<open>st\<close> character by character, as \<^verbatim>\<open>getDisplayWidth\<close> does (one byte is
  skipped where the decoder reports an encoding error), every character lies within \<open>a\<close>,
  none is unfinished at the end of \<open>a\<close>, and the conversion state is the zeroed one when
  the end of \<open>a\<close> is reached.  The null character takes one byte.
\<close>

function ends_on_boundary :: "'st decoder \<Rightarrow> 'st \<Rightarrow> byte list \<Rightarrow> bool" where
  "ends_on_boundary dec st a =
     (if a = [] then st = zeroed dec
      else
        (case mbrtowc dec st a of
           (MbInvalid, wc, st') \<Rightarrow> ends_on_boundary dec (zeroed dec) (tl a)
         | (MbIncomplete, wc, st') \<Rightarrow> False
         | (MbBytes k, wc, st') \<Rightarrow>
             if length a < k then False
             else ends_on_boundary dec st' (drop (max 1 k) a)))"
  by pat_completeness auto
termination
  by (relation "measure (\<lambda>(dec, st, a). length a)") auto

declare ends_on_boundary.simps [simp del]

text \<open>
  What claim C7 needs of the decoder, and what the C standard says of \<^verbatim>\<open>mbrtowc\<close>: the
  answer does not depend on the bytes behind the character.  A character found in a
  window is found, with the same length, value and new state, in every longer window;
  bytes that are an encoding error in a window do not begin a character in a longer one;
  and the null character is reported for the null byte only.
\<close>

definition conforming :: "'st decoder \<Rightarrow> bool" where
  "conforming dec =
     (\<forall>st s t k wc st'.
        (mbrtowc dec st s = (MbBytes k, wc, st') \<and> 0 < k \<and> k \<le> length s
           \<longrightarrow> mbrtowc dec st (s @ t) = (MbBytes k, wc, st')) \<and>
        (s \<noteq> [] \<and> fst (mbrtowc dec st s) = MbInvalid
           \<longrightarrow> fst (mbrtowc dec st (s @ t)) = MbInvalid \<or>
               fst (mbrtowc dec st (s @ t)) = MbIncomplete) \<and>
        (fst (mbrtowc dec st s) = MbBytes 0 \<longrightarrow> s \<noteq> [] \<and> hd s = 0))"

section \<open>Paragraphs and documents\<close>

text \<open>
  The \<^verbatim>\<open>lines\<close> array of a \<^verbatim>\<open>Paragraph\<close> is the list of its first \<^verbatim>\<open>lineCount\<close> entries, so
  \<^verbatim>\<open>lineCount\<close> is the length of the list; each entry is the content of the string that
  \<^verbatim>\<open>strdup\<close> has copied.  A \<^verbatim>\<open>Document\<close> is modelled the same way; its field
  \<^verbatim>\<open>capacity\<close> is \<open>dcapacity\<close> here, since the two records live in one name space.
  The \<^verbatim>\<open>int\<close> fields are modelled by \<open>int\<close>: a count never exceeds the number of bytes of
  the input, and a capacity is less than twice the count it serves.
\<close>

record Paragraph =
  lines :: "byte list list"
  capacity :: int

definition lineCount :: "Paragraph \<Rightarrow> int" where
  "lineCount para = int (length (lines para))"

record Document =
  paragraphs :: "Paragraph list"
  dcapacity :: int

definition paragraphCount :: "Document \<Rightarrow> int" where
  "paragraphCount doc = int (length (paragraphs doc))"

subsection \<open>Allocation\<close>

text \<open>
  \<^verbatim>\<open>malloc\<close>, \<^verbatim>\<open>realloc\<close> and \<^verbatim>\<open>strdup\<close> may fail.  Which requests fail is an input of the
  model: \<open>al k\<close> tells whether the request number \<open>k\<close> of the run succeeds.  A function
  that allocates takes the number of requests made so far and returns the new number.
\<close>

type_synonym allocator = "nat \<Rightarrow> bool"

definition no_failure :: allocator where
  "no_failure k = True"

definition strdup :: "byte list \<Rightarrow> byte list" where
  "strdup s = c_str s"

definition createParagraph :: "allocator \<Rightarrow> nat \<Rightarrow> Paragraph option \<times> nat" where
  "createParagraph al n =
     (if \<not> al n then (None, n + 1)
      else if \<not> al (n + 1) then (None, n + 2)
      else (Some \<lparr>lines = [], capacity = 8\<rparr>, n + 2))"

definition addLineToParagraph :: "allocator \<Rightarrow> Paragraph \<Rightarrow> byte list \<Rightarrow> nat \<Rightarrow> Paragraph \<times> nat" where
  "addLineToParagraph al para line n =
     (let (grown, n1) =
            (if lineCount para \<ge> capacity para
             then (if al n then Some (para\<lparr>capacity := capacity para * 2\<rparr>) else None, n + 1)
             else (Some para, n))
      in case grown of
           None \<Rightarrow> (para, n1)
         | Some para1 \<Rightarrow>
             if al n1 then (para1\<lparr>lines := lines para1 @ [strdup line]\<rparr>, n1 + 1)
             else (para1, n1 + 1))"

definition createDocument :: "allocator \<Rightarrow> nat \<Rightarrow> Document option \<times> nat" where
  "createDocument al n =
     (if \<not> al n then (None, n + 1)
      else if \<not> al (n + 1) then (None, n + 2)
      else (Some \<lparr>paragraphs = [], dcapacity = 8\<rparr>, n + 2))"

definition addParagraphToDocument :: "allocator \<Rightarrow> Document \<Rightarrow> Paragraph \<Rightarrow> nat \<Rightarrow> Document \<times> nat" where
  "addParagraphToDocument al doc para n =
     (let (grown, n1) =
            (if paragraphCount doc \<ge> dcapacity doc
             then (if al n then Some (doc\<lparr>dcapacity := dcapacity doc * 2\<rparr>) else None, n + 1)
             else (Some doc, n))
      in case grown of
           None \<Rightarrow> (doc, n1)
         | Some doc1 \<Rightarrow> (doc1\<lparr>paragraphs := paragraphs doc1 @ [para]\<rparr>, n1))"

section \<open>The parser\<close>

subsection \<open>String functions of the C library\<close>

text \<open>
  \<^verbatim>\<open>strlen(text + p)\<close>, \<^verbatim>\<open>strstr(text + p, "\n\n")\<close> (the index of the first two adjacent
  newline bytes before the terminator, or \<open>None\<close> for \<^verbatim>\<open>NULL\<close>) and
  \<^verbatim>\<open>strncpy(line, text + p, n)\<close> (the \<open>n\<close> bytes written to \<^verbatim>\<open>line\<close>: the source bytes up to
  its terminator, then zero bytes).
\<close>

function strlen :: "byte list \<Rightarrow> nat \<Rightarrow> nat" where
  "strlen mem p = (if at mem p = 0 then 0 else 1 + strlen mem (p + 1))"
  by pat_completeness auto
termination
  by (relation "measure (\<lambda>(mem, p). length mem - p)") (auto simp: at_def split: if_splits)

declare strlen.simps [simp del]

function strstr_nn :: "byte list \<Rightarrow> nat \<Rightarrow> nat option" where
  "strstr_nn mem p =
     (if at mem p = 0 then None
      else if at mem p = NL \<and> at mem (p + 1) = NL then Some p
      else strstr_nn mem (p + 1))"
  by pat_completeness auto
termination
  by (relation "measure (\<lambda>(mem, p). length mem - p)") (auto simp: at_def split: if_splits)

declare strstr_nn.simps [simp del]

definition strncpy :: "byte list \<Rightarrow> nat \<Rightarrow> nat \<Rightarrow> byte list" where
  "strncpy mem p n =
     (let src = takeWhile (\<lambda>c. c \<noteq> 0) (map (at mem) [p ..< p + n])
      in src @ replicate (n - length src) 0)"

subsection \<open>\<^verbatim>\<open>parseDocument\<close>\<close>

text \<open>
  Pointers into \<^verbatim>\<open>text\<close> are indices.  Each loop of \<^verbatim>\<open>parseDocument\<close> is a recursive
  function: \<open>skip_newlines\<close> is \<^verbatim>\<open>while (*textPtr == '\n') textPtr++\<close>, \<open>find_line_end\<close> is
  \<^verbatim>\<open>while (lineEnd < paraEnd && *lineEnd != '\n') lineEnd++\<close>, \<open>parse_lines\<close> is the loop over
  the lines of one paragraph and \<open>parse_paragraphs\<close> the main loop.  A result \<open>None\<close> is
  the \<^verbatim>\<open>return NULL\<close> of the function.  \<^verbatim>\<open>int lineLength\<close> is modelled by a natural
  number (\<^verbatim>\<open>lineEnd\<close> never lies before \<^verbatim>\<open>lineStart\<close>, and lines are taken to be shorter
  than \<open>2^31\<close> bytes).
\<close>

function skip_newlines :: "byte list \<Rightarrow> nat \<Rightarrow> nat" where
  "skip_newlines mem textPtr =
     (if at mem textPtr = NL then skip_newlines mem (textPtr + 1) else textPtr)"
  by pat_completeness auto
termination
  by (relation "measure (\<lambda>(mem, p). length mem - p)") (auto simp: at_def NL_def split: if_splits)

declare skip_newlines.simps [simp del]

function find_line_end :: "byte list \<Rightarrow> nat \<Rightarrow> nat \<Rightarrow> nat" where
  "find_line_end mem paraEnd lineEnd =
     (if lineEnd < paraEnd \<and> at mem lineEnd \<noteq> NL
      then find_line_end mem paraEnd (lineEnd + 1)
      else lineEnd)"
  by pat_completeness auto
termination
  by (relation "measure (\<lambda>(mem, paraEnd, lineEnd). paraEnd - lineEnd)") auto

declare find_line_end.simps [simp del]

lemma find_line_end_ge: "lineEnd \<le> find_line_end mem paraEnd lineEnd"
proof (induction mem paraEnd lineEnd rule: find_line_end.induct)
  case (1 mem paraEnd lineEnd)
  show ?case
  proof (cases "lineEnd < paraEnd \<and> at mem lineEnd \<noteq> NL")
    case True
    with 1 have "lineEnd + 1 \<le> find_line_end mem paraEnd (lineEnd + 1)" by blast
    with True show ?thesis by (subst find_line_end.simps) simp
  next
    case False
    then show ?thesis by (subst find_line_end.simps) auto
  qed
qed

lemma find_line_end_stop:
  "find_line_end mem paraEnd lineEnd < paraEnd \<Longrightarrow>
   at mem (find_line_end mem paraEnd lineEnd) = NL"
proof (induction mem paraEnd lineEnd rule: find_line_end.induct)
  case (1 mem paraEnd lineEnd)
  show ?case
  proof (cases "lineEnd < paraEnd \<and> at mem lineEnd \<noteq> NL")
    case True
    then have eq: "find_line_end mem paraEnd lineEnd = find_line_end mem paraEnd (lineEnd + 1)"
      by (subst find_line_end.simps) simp
    with "1.prems" have "find_line_end mem paraEnd (lineEnd + 1) < paraEnd" by simp
    with "1.IH" True eq show ?thesis by simp
  next
    case False
    then have eq: "find_line_end mem paraEnd lineEnd = lineEnd"
      by (subst find_line_end.simps) auto
    with "1.prems" False show ?thesis by auto
  qed
qed

function parse_lines ::
  "allocator \<Rightarrow> byte list \<Rightarrow> nat \<Rightarrow> nat \<Rightarrow> Paragraph \<Rightarrow> nat \<Rightarrow> Paragraph option \<times> nat" where
  "parse_lines al mem paraEnd lineStart para n =
     (if lineStart < paraEnd \<and> at mem lineStart \<noteq> 0 then
        (let lineEnd = find_line_end mem paraEnd lineStart;
             lineLength = lineEnd - lineStart
         in if \<not> al n then (None, n + 1)
            else
              (let line = strncpy mem lineStart lineLength @ [0];
                   (para', n') = addLineToParagraph al para line (n + 1);
                   lineStart' = (if lineEnd < paraEnd \<and> at mem lineEnd = NL
                                 then lineEnd + 1 else lineEnd)
               in parse_lines al mem paraEnd lineStart' para' n'))
      else (Some para, n))"
  by pat_completeness auto
termination
proof (relation "measure (\<lambda>(al, mem, paraEnd, lineStart, para, n). paraEnd - lineStart)", goal_cases)
  case 1
  show ?case by simp
next
  case (2 al mem paraEnd lineStart para n lineEnd lineLength line pn para' n' lineStart')
  have lt: "lineStart < paraEnd" using 2(1) by simp
  have le: "lineEnd = find_line_end mem paraEnd lineStart" by (rule 2(2))
  have ls: "lineStart' = (if lineEnd < paraEnd \<and> at mem lineEnd = NL then lineEnd + 1 else lineEnd)"
    by (rule 2(8))
  have ge: "lineStart \<le> lineEnd"
    unfolding le by (rule find_line_end_ge)
  have "lineStart < lineStart'"
  proof (cases "lineEnd < paraEnd")
    case True
    then have "at mem lineEnd = NL" unfolding le by (rule find_line_end_stop)
    with True ge ls show ?thesis by simp
  next
    case False
    with lt ge ls show ?thesis by simp
  qed
  with lt show ?case by simp
qed

declare parse_lines.simps [simp del]

lemma skip_newlines_ge: "textPtr \<le> skip_newlines mem textPtr"
proof (induction mem textPtr rule: skip_newlines.induct)
  case (1 mem textPtr)
  show ?case
  proof (cases "at mem textPtr = NL")
    case True
    with 1 have "textPtr + 1 \<le> skip_newlines mem (textPtr + 1)" by blast
    with True show ?thesis by (subst skip_newlines.simps) simp
  next
    case False
    then show ?thesis by (subst skip_newlines.simps) simp
  qed
qed

lemma strstr_nn_ge: "strstr_nn mem p = Some q \<Longrightarrow> p \<le> q"
proof (induction mem p rule: strstr_nn.induct)
  case (1 mem p)
  have "strstr_nn mem p =
     (if at mem p = 0 then None
      else if at mem p = NL \<and> at mem (p + 1) = NL then Some p
      else strstr_nn mem (p + 1))"
    by (rule strstr_nn.simps)
  with "1.prems" have *: "(if at mem p = 0 then None
      else if at mem p = NL \<and> at mem (p + 1) = NL then Some p
      else strstr_nn mem (p + 1)) = Some q"
    by simp
  show ?case
  proof (cases "at mem p = NL \<and> at mem (p + 1) = NL")
    case True
    with * show ?thesis by (simp split: if_splits)
  next
    case False
    with * have nz: "at mem p \<noteq> 0" and "strstr_nn mem (p + 1) = Some q"
      by (auto split: if_splits)
    with False "1.IH" have "p + 1 \<le> q" by blast
    then show ?thesis by simp
  qed
qed

lemma strlen_pos: "at mem p \<noteq> 0 \<Longrightarrow> 0 < strlen mem p"
  by (subst strlen.simps) simp

lemma at_nonzero_less: "at mem p \<noteq> 0 \<Longrightarrow> p < length mem"
  by (simp add: at_def split: if_splits)

function parse_paragraphs ::
  "allocator \<Rightarrow> byte list \<Rightarrow> nat \<Rightarrow> Document \<Rightarrow> nat \<Rightarrow> Document option \<times> nat" where
  "parse_paragraphs al mem textPtr doc n =
     (if at mem textPtr \<noteq> 0 then
        (let paraStart = skip_newlines mem textPtr in
         if at mem paraStart = 0 then (Some doc, n)
         else
           (let paraEnd = (case strstr_nn mem paraStart of
                             None \<Rightarrow> paraStart + strlen mem paraStart
                           | Some q \<Rightarrow> q);
                nextParaStart = (case strstr_nn mem paraStart of
                                   None \<Rightarrow> paraEnd
                                 | Some q \<Rightarrow> paraEnd + 2)
            in case createParagraph al n of
                 (None, n1) \<Rightarrow> (None, n1)
               | (Some para, n1) \<Rightarrow>
                   (case parse_lines al mem paraEnd paraStart para n1 of
                      (None, n2) \<Rightarrow> (None, n2)
                    | (Some para', n2) \<Rightarrow>
                        (let (doc', n3) = addParagraphToDocument al doc para' n2
                         in parse_paragraphs al mem nextParaStart doc' n3))))
      else (Some doc, n))"
  by pat_completeness auto
termination
proof (relation "measure (\<lambda>(al, mem, textPtr, doc, n). length mem - textPtr)", goal_cases)
  case 1
  show ?case by simp
next
  case (2 al mem textPtr doc n paraStart paraEnd nextParaStart cp para n1 pl para' n2 ad doc' n3)
  have lt: "textPtr < length mem" using 2(1) by (rule at_nonzero_less)
  have ps: "textPtr \<le> paraStart" unfolding 2(2) by (rule skip_newlines_ge)
  have nz: "at mem paraStart \<noteq> 0" by (rule 2(3))
  have "paraStart < nextParaStart"
  proof (cases "strstr_nn mem paraStart")
    case None
    with 2(4) 2(5) have "nextParaStart = paraStart + strlen mem paraStart" by simp
    with strlen_pos [OF nz] show ?thesis by simp
  next
    case (Some q)
    with 2(4) 2(5) have "nextParaStart = q + 2" by simp
    with strstr_nn_ge [OF Some] show ?thesis by simp
  qed
  with lt ps show ?case by (simp only: in_measure prod.case)
qed

declare parse_paragraphs.simps [simp del]

definition parseDocument :: "allocator \<Rightarrow> byte list \<Rightarrow> Document option" where
  "parseDocument al mem =
     (case createDocument al 0 of
        (None, n) \<Rightarrow> None
      | (Some doc, n) \<Rightarrow> fst (parse_paragraphs al mem 0 doc n))"

section \<open>The renderer\<close>

text \<open>
  \<open>print_line\<close> is the body of the loop over the lines of a paragraph: the padding, then
  \<^verbatim>\<open>printf("%s\n", line)\<close>, which writes the bytes of the string up to its terminator.
  \<open>print_paragraphs\<close> is the loop over the paragraphs, with the blank line it writes after
  every paragraph but the last.  The division of C truncates towards zero (\<open>sdiv\<close>).  The
  output is the list of the bytes written to the standard output.
\<close>

definition padding_of :: "int \<Rightarrow> int \<Rightarrow> int" where
  "padding_of terminalWidth displayWidth =
     (let padding = (terminalWidth - displayWidth) sdiv 2
      in if padding < 0 then 0 else padding)"

definition print_line :: "'st decoder \<Rightarrow> (nat \<Rightarrow> int) \<Rightarrow> int \<Rightarrow> byte list \<Rightarrow> byte list" where
  "print_line dec wcw terminalWidth line =
     (let displayWidth = getDisplayWidth dec wcw line;
          padding = padding_of terminalWidth displayWidth
      in replicate (nat padding) SP @ c_str line @ [NL])"

fun print_paragraphs ::
  "'st decoder \<Rightarrow> (nat \<Rightarrow> int) \<Rightarrow> int \<Rightarrow> Paragraph list \<Rightarrow> byte list" where
  "print_paragraphs dec wcw terminalWidth [] = []"
| "print_paragraphs dec wcw terminalWidth (para # rest) =
     concat (map (print_line dec wcw terminalWidth) (lines para))
     @ (if rest \<noteq> [] then [NL] else [])
     @ print_paragraphs dec wcw terminalWidth rest"

definition printCenteredDocument ::
  "'st decoder \<Rightarrow> (nat \<Rightarrow> int) \<Rightarrow> ioctl_answer \<Rightarrow> Document \<Rightarrow> byte list" where
  "printCenteredDocument dec wcw os doc =
     (let terminalWidth = getTerminalWidth os
      in print_paragraphs dec wcw terminalWidth (paragraphs doc))"

section \<open>The driver\<close>

text \<open>
  \<^verbatim>\<open>main\<close> once the input has been read into \<^verbatim>\<open>inputContent\<close>: the bytes written to the
  standard output and the exit status.
\<close>

definition cntr_main ::
  "allocator \<Rightarrow> 'st decoder \<Rightarrow> (nat \<Rightarrow> int) \<Rightarrow> ioctl_answer \<Rightarrow> byte list \<Rightarrow> byte list \<times> int" where
  "cntr_main al dec wcw os inputContent =
     (case parseDocument al inputContent of
        None \<Rightarrow> ([], 1)
      | Some doc \<Rightarrow> (printCenteredDocument dec wcw os doc, 0))"

section \<open>The document as the specification describes it\<close>

text \<open>
  The claims about the parser compare its result with the text.  The definitions of this
  section follow the words of the specification, not the code: the lines of a text are
  the pieces between its newline bytes (\<open>split_nl\<close>); a paragraph is a maximal run of
  lines that are not blank (\<open>blocks\<close>), so one or more blank lines separate two paragraphs;
  \<open>unparse\<close> joins the lines of each paragraph with one newline and the paragraphs with
  two; \<open>strip_newlines\<close> removes the newline bytes at both ends of a text, and
  \<open>squeeze_newlines\<close> shortens every run of three or more newline bytes to two.
\<close>

fun split_nl :: "byte list \<Rightarrow> byte list list" where
  "split_nl [] = [[]]"
| "split_nl (c # s) =
     (if c = NL then [] # split_nl s
      else (c # hd (split_nl s)) # tl (split_nl s))"

function blocks :: "byte list list \<Rightarrow> byte list list list" where
  "blocks [] = []"
| "blocks (l # ls) =
     (if l = [] then blocks ls
      else (l # takeWhile (\<lambda>x. x \<noteq> []) ls) # blocks (dropWhile (\<lambda>x. x \<noteq> []) ls))"
  by pat_completeness auto
termination
  by (relation "measure length") (auto simp: le_imp_less_Suc length_dropWhile_le)

declare blocks.simps(2) [simp del]

fun join :: "byte list \<Rightarrow> byte list list \<Rightarrow> byte list" where
  "join sep [] = []"
| "join sep [x] = x"
| "join sep (x # y # r) = x @ sep @ join sep (y # r)"

definition strip_newlines :: "byte list \<Rightarrow> byte list" where
  "strip_newlines s = rev (dropWhile (\<lambda>c. c = NL) (rev (dropWhile (\<lambda>c. c = NL) s)))"

fun squeeze_newlines :: "byte list \<Rightarrow> byte list" where
  "squeeze_newlines (a # b # c # s) =
     (if a = NL \<and> b = NL \<and> c = NL then squeeze_newlines (b # c # s)
      else a # squeeze_newlines (b # c # s))"
| "squeeze_newlines s = s"

definition document_lines :: "Document \<Rightarrow> byte list list list" where
  "document_lines doc = map lines (paragraphs doc)"

definition unparse :: "Document \<Rightarrow> byte list" where
  "unparse doc = join [NL, NL] (map (join [NL]) (document_lines doc))"

text \<open>
  The renderer in the words of the specification: for a line \<open>L\<close> of display width \<open>w\<close>,
  \<open>max ((terminalColumns - w) / 2) 0\<close> space bytes, the division truncating towards zero,
  then the bytes of \<open>L\<close>, then one newline; the lines of a paragraph follow each other,
  and one more newline stands between two paragraphs.
\<close>

definition centered_line :: "int \<Rightarrow> int \<Rightarrow> byte list \<Rightarrow> byte list" where
  "centered_line terminalColumns w L =
     replicate (nat (max ((terminalColumns - w) sdiv 2) 0)) SP @ L @ [NL]"

definition render :: "(byte list \<Rightarrow> int) \<Rightarrow> int \<Rightarrow> byte list list list \<Rightarrow> byte list" where
  "render displayWidth terminalColumns doc =
     join [NL]
       (map (\<lambda>P. concat (map (\<lambda>L. centered_line terminalColumns (displayWidth L) L) P)) doc)"

section \<open>Auxiliary definitions\<close>

text \<open>
  Names for parts of \<^verbatim>\<open>parseDocument\<close> and views of the text on lists, used in the proofs
  only: the values of \<^verbatim>\<open>paraEnd\<close> and \<^verbatim>\<open>nextParaStart\<close> for a paragraph, the next value of
  \<^verbatim>\<open>lineStart\<close> and the buffer \<^verbatim>\<open>line\<close> for a line, the position of the first two adjacent
  newline bytes of a list, the lines the inner loop takes from a list, and a text
  without the newline bytes at its end.
\<close>

text \<open>Two memories that hold the same string.\<close>

definition agree :: "nat \<Rightarrow> byte list \<Rightarrow> byte list \<Rightarrow> bool" where
  "agree L m1 m2 = ((\<forall>p\<le>L. at m1 p = at m2 p) \<and> at m1 L = 0)"

definition next_line :: "byte list \<Rightarrow> nat \<Rightarrow> nat \<Rightarrow> nat" where
  "next_line mem paraEnd lineStart =
     (let lineEnd = find_line_end mem paraEnd lineStart
      in if lineEnd < paraEnd \<and> at mem lineEnd = NL then lineEnd + 1 else lineEnd)"

definition line_at :: "byte list \<Rightarrow> nat \<Rightarrow> nat \<Rightarrow> byte list" where
  "line_at mem paraEnd lineStart =
     strncpy mem lineStart (find_line_end mem paraEnd lineStart - lineStart) @ [0]"

definition para_end :: "byte list \<Rightarrow> nat \<Rightarrow> nat" where
  "para_end mem paraStart =
     (case strstr_nn mem paraStart of
        None \<Rightarrow> paraStart + strlen mem paraStart
      | Some q \<Rightarrow> q)"

definition next_para :: "byte list \<Rightarrow> nat \<Rightarrow> nat" where
  "next_para mem paraStart =
     (case strstr_nn mem paraStart of
        None \<Rightarrow> para_end mem paraStart
      | Some q \<Rightarrow> para_end mem paraStart + 2)"

fun find_nn :: "byte list \<Rightarrow> nat option" where
  "find_nn (c # d # s) =
     (if c = NL \<and> d = NL then Some 0 else map_option Suc (find_nn (d # s)))"
| "find_nn s = None"

fun lines_of :: "byte list \<Rightarrow> byte list list" where
  "lines_of [] = []"
| "lines_of (c # u) =
     (if c = NL then [] # lines_of u
      else if u = [] then [[c]]
      else (c # hd (lines_of u)) # tl (lines_of u))"

definition rstrip :: "byte list \<Rightarrow> byte list" where
  "rstrip s = rev (dropWhile (\<lambda>c. c = NL) (rev s))"

section \<open>Sample inputs\<close>

text \<open>
  Concrete inputs for the examples below: a few rows of the table of \<^verbatim>\<open>wcwidth\<close> (the
  control characters are not printable, the combining diacritical marks U+0300..U+036F
  take no column, the CJK range U+3000..U+9FFF takes two), a terminal of a given number of
  columns, a standard output that is not a terminal, and an allocator that refuses
  exactly one request.
\<close>

definition wcwidth_sample :: "nat \<Rightarrow> int" where
  "wcwidth_sample wc =
     (if wc = 0 then 0
      else if wc < 32 \<or> (127 \<le> wc \<and> wc < 160) then -1
      else if 0x300 \<le> wc \<and> wc < 0x370 then 0
      else if 0x3000 \<le> wc \<and> wc < 0xA000 then 2
      else 1)"

definition tty :: "nat \<Rightarrow> ioctl_answer" where
  "tty cols =
     \<lparr>ioctl_ret = 0,
      ioctl_w = \<lparr>ws_row = 24, ws_col = of_nat cols, ws_xpixel = 0, ws_ypixel = 0\<rparr>\<rparr>"

definition fails_at :: "nat \<Rightarrow> allocator" where
  "fails_at k i = (i \<noteq> k)"

definition no_tty :: ioctl_answer where
  "no_tty =
     \<lparr>ioctl_ret = -1,
      ioctl_w = \<lparr>ws_row = 0, ws_col = 0, ws_xpixel = 0, ws_ypixel = 0\<rparr>\<rparr>"

text \<open>
  A decoder for the examples: UTF-8 with exactly the well-formed sequences of RFC 3629
  (no overlong forms, no surrogates, nothing above U+10FFFF).  UTF-8 has no shift states,
  and \<^verbatim>\<open>getDisplayWidth\<close> zeroes the conversion state whenever a character is left
  unfinished, so the conversion state of this decoder holds nothing.  The decoders of C
  libraries differ in what they accept beyond these sequences; the examples use bytes on
  which they agree.
\<close>

definition utf8_len :: "byte \<Rightarrow> nat" where
  "utf8_len b =
     (if b < 0x80 then 1
      else if 0xC2 \<le> b \<and> b \<le> 0xDF then 2
      else if 0xE0 \<le> b \<and> b \<le> 0xEF then 3
      else if 0xF0 \<le> b \<and> b \<le> 0xF4 then 4
      else 0)"

definition is_cont :: "byte \<Rightarrow> bool" where
  "is_cont b = (0x80 \<le> b \<and> b \<le> 0xBF)"

definition second_ok :: "byte \<Rightarrow> byte \<Rightarrow> bool" where
  "second_ok b0 b1 =
     (if b0 = 0xE0 then 0xA0 \<le> b1 \<and> b1 \<le> 0xBF
      else if b0 = 0xED then 0x80 \<le> b1 \<and> b1 \<le> 0x9F
      else if b0 = 0xF0 then 0x90 \<le> b1 \<and> b1 \<le> 0xBF
      else if b0 = 0xF4 then 0x80 \<le> b1 \<and> b1 \<le> 0x8F
      else is_cont b1)"

definition tail_ok :: "byte \<Rightarrow> byte list \<Rightarrow> bool" where
  "tail_ok b0 r = (case r of [] \<Rightarrow> True | b1 # r' \<Rightarrow> second_ok b0 b1 \<and> list_all is_cont r')"

definition lead_bits :: "nat \<Rightarrow> byte \<Rightarrow> nat" where
  "lead_bits n b0 =
     (if n = 2 then unat (b0 AND 0x1F)
      else if n = 3 then unat (b0 AND 0x0F)
      else unat (b0 AND 0x07))"

definition code_point :: "nat \<Rightarrow> byte \<Rightarrow> byte list \<Rightarrow> nat" where
  "code_point n b0 r = foldl (\<lambda>acc b. acc * 64 + unat (b AND 0x3F)) (lead_bits n b0) r"

definition utf8_mbrtowc :: "unit \<Rightarrow> byte list \<Rightarrow> mbret \<times> nat \<times> unit" where
  "utf8_mbrtowc st s =
     (case s of
        [] \<Rightarrow> (MbIncomplete, 0, st)
      | b0 # r \<Rightarrow>
          (let n = utf8_len b0 in
           if n = 0 then (MbInvalid, 0, st)
           else if n = 1 then (MbBytes (if b0 = 0 then 0 else 1), unat b0, st)
           else if \<not> tail_ok b0 (take (n - 1) r) then (MbInvalid, 0, st)
           else if length r < n - 1 then (MbIncomplete, 0, st)
           else (MbBytes n, code_point n b0 (take (n - 1) r), st)))"

definition utf8_decoder :: "unit decoder" where
  "utf8_decoder = \<lparr>zeroed = (), mbrtowc = utf8_mbrtowc\<rparr>"

section \<open>The terminal probe: claim C8\<close>

text \<open>
  C8, as stated: \<^verbatim>\<open>getTerminalWidth\<close> returns the column count the system reports, exactly
  80 when the query fails, and a positive number in all cases.  The last part fails: a
  query that succeeds and reports no columns (a terminal whose window size was never set)
  makes the function return 0.
\<close>

theorem getTerminalWidth_zero_columns:
  "ioctl_ret (tty 0) = 0 \<and> getTerminalWidth (tty 0) = 0 \<and> \<not> 0 < getTerminalWidth (tty 0)"
  by (simp add: tty_def getTerminalWidth_def)

text \<open>
  C8, amended: \<^verbatim>\<open>getTerminalWidth\<close> returns exactly 80 when the query fails (\<^verbatim>\<open>ioctl\<close>
  returns \<open>-1\<close>) and the reported column count otherwise; the result is never negative,
  and it is positive whenever the query fails or reports a column count other than 0.
\<close>

theorem getTerminalWidth_answer:
  "(ioctl_ret os = -1 \<longrightarrow> getTerminalWidth os = 80) \<and>
   (ioctl_ret os \<noteq> -1 \<longrightarrow> getTerminalWidth os = uint (ws_col (ioctl_w os))) \<and>
   0 \<le> getTerminalWidth os \<and>
   (ioctl_ret os = -1 \<or> ws_col (ioctl_w os) \<noteq> 0 \<longrightarrow> 0 < getTerminalWidth os)"
proof -
  have "0 < uint (ws_col (ioctl_w os))" if "ws_col (ioctl_w os) \<noteq> 0"
  proof -
    from that have "uint (ws_col (ioctl_w os)) \<noteq> 0" by (simp add: uint_0_iff)
    with uint_nonnegative [of "ws_col (ioctl_w os)"] show ?thesis by arith
  qed
  then show ?thesis
    by (auto simp: getTerminalWidth_def)
qed

theorem getTerminalWidth_answer_witness:
  "getTerminalWidth no_tty = 80 \<and> getTerminalWidth (tty 20) = 20 \<and> 0 < getTerminalWidth (tty 20)"
proof -
  have a: "ioctl_ret no_tty = -1" by (simp add: no_tty_def)
  have b: "ioctl_ret (tty 20) \<noteq> -1" by (simp add: tty_def)
  have c: "ws_col (ioctl_w (tty 20)) \<noteq> 0" by (simp add: tty_def)
  have d: "uint (ws_col (ioctl_w (tty 20))) = 20" by (simp add: tty_def)
  from getTerminalWidth_answer [of no_tty] a have "getTerminalWidth no_tty = 80" by blast
  moreover from getTerminalWidth_answer [of "tty 20"] b c d
  have "getTerminalWidth (tty 20) = 20 \<and> 0 < getTerminalWidth (tty 20)" by simp
  ultimately show ?thesis by simp
qed

section \<open>The renderer: claim C2\<close>

lemma c_str_no_nul: "0 \<notin> set L \<Longrightarrow> c_str L = L"
  unfolding c_str_def by (rule takeWhile_eq_all_conv [THEN iffD2]) auto

lemma padding_of_max: "padding_of tw w = max ((tw - w) sdiv 2) 0"
  by (simp add: padding_of_def Let_def max_def)

lemma sdiv_2_nonneg: "0 \<le> (k::int) \<Longrightarrow> k sdiv 2 = k div 2"
  by (simp add: signed_divide_int_def sgn_if)

lemmas mb_defs = utf8_decoder_def utf8_mbrtowc_def utf8_len_def tail_ok_def second_ok_def
  is_cont_def code_point_def lead_bits_def Let_def

lemmas width_eval = getDisplayWidth_def getDisplayWidth_loop.simps c_str_def mb_defs
  wcwidth_sample_def




section \<open>The width of a line: claims C6 and C7\<close>

lemma loop_Nil: "getDisplayWidth_loop dec wcw st [] w = w"
  by (subst getDisplayWidth_loop.simps) simp

lemma loop_Invalid:
  "s \<noteq> [] \<Longrightarrow>
   fst (mbrtowc dec st s) = MbInvalid \<or> fst (mbrtowc dec st s) = MbIncomplete \<Longrightarrow>
   getDisplayWidth_loop dec wcw st s w = getDisplayWidth_loop dec wcw (zeroed dec) (tl s) (w + 1)"
  by (subst getDisplayWidth_loop.simps) (auto split: prod.splits mbret.splits)

lemma loop_Null:
  "s \<noteq> [] \<Longrightarrow> fst (mbrtowc dec st s) = MbBytes 0 \<Longrightarrow> getDisplayWidth_loop dec wcw st s w = w"
  by (subst getDisplayWidth_loop.simps) (auto split: prod.splits mbret.splits)

lemma loop_Char:
  "s \<noteq> [] \<Longrightarrow> mbrtowc dec st s = (MbBytes k, wc, st') \<Longrightarrow> 0 < k \<Longrightarrow>
   getDisplayWidth_loop dec wcw st s w =
     getDisplayWidth_loop dec wcw st' (drop k s) (w + (if wcw wc < 0 then 1 else wcw wc))"
  by (subst getDisplayWidth_loop.simps) (auto split: prod.splits mbret.splits)

lemma loop_acc:
  "getDisplayWidth_loop dec wcw st s (w + d) = getDisplayWidth_loop dec wcw st s w + d"
proof (induction dec wcw st s w arbitrary: d rule: getDisplayWidth_loop.induct)
  case (1 dec wcw state s width)
  show ?case
  proof (cases "s = []")
    case True
    then show ?thesis by (simp add: loop_Nil)
  next
    case False
    obtain r wc st' where m: "mbrtowc dec state s = (r, wc, st')"
      by (cases "mbrtowc dec state s") auto
    show ?thesis
    proof (cases r)
      case MbInvalid
      with m False have "getDisplayWidth_loop dec wcw (zeroed dec) (tl s) (width + 1 + d)
          = getDisplayWidth_loop dec wcw (zeroed dec) (tl s) (width + 1) + d"
        using "1.IH"(1) [of r "(wc, st')" wc st' d] by simp
      with m False MbInvalid show ?thesis
        by (simp add: loop_Invalid add.commute add.left_commute)
    next
      case MbIncomplete
      with m False have "getDisplayWidth_loop dec wcw (zeroed dec) (tl s) (width + 1 + d)
          = getDisplayWidth_loop dec wcw (zeroed dec) (tl s) (width + 1) + d"
        using "1.IH"(2) [of r "(wc, st')" wc st' d] by simp
      with m False MbIncomplete show ?thesis
        by (simp add: loop_Invalid add.commute add.left_commute)
    next
      case (MbBytes k)
      show ?thesis
      proof (cases "k = 0")
        case True
        with m False MbBytes show ?thesis by (simp add: loop_Null)
      next
        case nz: False
        let ?cw = "if wcw wc < 0 then 1 else wcw wc"
        from nz have kpos: "0 < k" by simp
        from m MbBytes have m': "mbrtowc dec state s = (MbBytes k, wc, st')" by simp
        have step: "getDisplayWidth_loop dec wcw state s w
            = getDisplayWidth_loop dec wcw st' (drop k s) (w + ?cw)" for w
          by (rule loop_Char [OF False m' kpos])
        from m False MbBytes nz
        have ih: "getDisplayWidth_loop dec wcw st' (drop k s) (width + ?cw + d)
          = getDisplayWidth_loop dec wcw st' (drop k s) (width + ?cw) + d"
          using "1.IH"(3) [of r "(wc, st')" k wc st' ?cw d] by simp
        have "getDisplayWidth_loop dec wcw state s (width + d)
            = getDisplayWidth_loop dec wcw st' (drop k s) (width + d + ?cw)"
          by (rule step)
        also have "width + d + ?cw = width + ?cw + d" by simp
        also note ih
        also have "getDisplayWidth_loop dec wcw st' (drop k s) (width + ?cw)
            = getDisplayWidth_loop dec wcw state s width"
          by (rule step [symmetric])
        finally show ?thesis .
      qed
    qed
  qed
qed

lemma loop_acc0:
  "getDisplayWidth_loop dec wcw st s w = getDisplayWidth_loop dec wcw st s 0 + w"
  using loop_acc [of dec wcw st s 0 w] by simp

lemma c_str_idem: "c_str (c_str s) = c_str s"
  by (simp add: c_str_def takeWhile_idem)

lemma c_str_not_nul: "0 \<notin> set (c_str s)"
  by (auto simp: c_str_def dest: set_takeWhileD)

lemma c_str_append_nul: "0 \<notin> set s \<Longrightarrow> c_str (s @ 0 # rest) = s"
proof -
  assume "0 \<notin> set s"
  then have "\<And>x. x \<in> set s \<Longrightarrow> x \<noteq> 0" by auto
  then have "takeWhile (\<lambda>c. c \<noteq> 0) (s @ 0 # rest) = s @ takeWhile (\<lambda>c. c \<noteq> 0) (0 # rest)"
    by (rule takeWhile_append2)
  then show ?thesis by (simp add: c_str_def)
qed

lemma c_str_append: "0 \<notin> set a \<Longrightarrow> c_str (a @ b) = a @ c_str b"
proof -
  assume "0 \<notin> set a"
  then have "\<And>x. x \<in> set a \<Longrightarrow> x \<noteq> 0" by auto
  then have "takeWhile (\<lambda>c. c \<noteq> 0) (a @ b) = a @ takeWhile (\<lambda>c. c \<noteq> 0) b"
    by (rule takeWhile_append2)
  then show ?thesis by (simp add: c_str_def)
qed

lemma getDisplayWidth_c_str:
  "getDisplayWidth dec wcw (c_str str) = getDisplayWidth dec wcw str"
  by (simp add: getDisplayWidth_def c_str_idem)

text \<open>
  C6: \<^verbatim>\<open>getDisplayWidth\<close> reads its argument with the decoder of the C library, from the
  zeroed conversion state.  The scan ends at the first null byte or at the end of the
  buffer: the width depends on the bytes before the first null byte only, the empty
  string has width 0, and the loop returns the running width when no byte is left or when
  the decoder reports the null character.  Where the decoder reports that the bytes at
  the cursor are malformed or incomplete, one column is added, the cursor moves by one
  byte and the scan goes on from the zeroed conversion state.  A character that is decoded
  from \<open>k > 0\<close> bytes moves the cursor by \<open>k\<close> bytes; it adds one column when \<^verbatim>\<open>wcwidth\<close>
  calls it not printable (a negative answer), and the answer of \<^verbatim>\<open>wcwidth\<close> otherwise.
\<close>

theorem getDisplayWidth_scan:
  "getDisplayWidth dec wcw [] = 0 \<and>
   getDisplayWidth dec wcw str = getDisplayWidth dec wcw (c_str str) \<and>
   (0 \<notin> set a \<longrightarrow> getDisplayWidth dec wcw (a @ 0 # rest) = getDisplayWidth dec wcw a) \<and>
   getDisplayWidth dec wcw str = getDisplayWidth_loop dec wcw (zeroed dec) (c_str str) 0 \<and>
   getDisplayWidth_loop dec wcw st [] w = w \<and>
   (s \<noteq> [] \<and> fst (mbrtowc dec st s) = MbBytes 0 \<longrightarrow> getDisplayWidth_loop dec wcw st s w = w) \<and>
   (s \<noteq> [] \<and>
    (fst (mbrtowc dec st s) = MbInvalid \<or> fst (mbrtowc dec st s) = MbIncomplete) \<longrightarrow>
      getDisplayWidth_loop dec wcw st s w
        = getDisplayWidth_loop dec wcw (zeroed dec) (tl s) 0 + (w + 1)) \<and>
   (s \<noteq> [] \<and> mbrtowc dec st s = (MbBytes k, wc, st') \<and> 0 < k \<longrightarrow>
      (wcw wc < 0 \<longrightarrow>
         getDisplayWidth_loop dec wcw st s w
           = getDisplayWidth_loop dec wcw st' (drop k s) 0 + (w + 1)) \<and>
      (0 \<le> wcw wc \<longrightarrow>
         getDisplayWidth_loop dec wcw st s w
           = getDisplayWidth_loop dec wcw st' (drop k s) 0 + (w + wcw wc)))"
proof (intro conjI impI)
  show "getDisplayWidth dec wcw [] = 0"
    by (simp add: getDisplayWidth_def c_str_def loop_Nil)
  show "getDisplayWidth dec wcw str = getDisplayWidth dec wcw (c_str str)"
    by (rule getDisplayWidth_c_str [symmetric])
  show "getDisplayWidth dec wcw str = getDisplayWidth_loop dec wcw (zeroed dec) (c_str str) 0"
    by (rule getDisplayWidth_def)
  show "getDisplayWidth_loop dec wcw st [] w = w"
    by (rule loop_Nil)
next
  assume "0 \<notin> set a"
  then have "c_str (a @ 0 # rest) = c_str a"
    by (simp add: c_str_append_nul c_str_no_nul)
  then show "getDisplayWidth dec wcw (a @ 0 # rest) = getDisplayWidth dec wcw a"
    by (simp add: getDisplayWidth_def)
next
  assume n: "s \<noteq> [] \<and> fst (mbrtowc dec st s) = MbBytes 0"
  from n have n1: "s \<noteq> []" ..
  from n have n2: "fst (mbrtowc dec st s) = MbBytes 0" ..
  from n1 n2 show "getDisplayWidth_loop dec wcw st s w = w"
    by (rule loop_Null)
next
  assume b: "s \<noteq> [] \<and>
    (fst (mbrtowc dec st s) = MbInvalid \<or> fst (mbrtowc dec st s) = MbIncomplete)"
  from b have b1: "s \<noteq> []" ..
  from b have b2: "fst (mbrtowc dec st s) = MbInvalid \<or> fst (mbrtowc dec st s) = MbIncomplete" ..
  from b1 b2 have "getDisplayWidth_loop dec wcw st s w
      = getDisplayWidth_loop dec wcw (zeroed dec) (tl s) (w + 1)"
    by (rule loop_Invalid)
  also have "\<dots> = getDisplayWidth_loop dec wcw (zeroed dec) (tl s) 0 + (w + 1)"
    by (rule loop_acc0)
  finally show "getDisplayWidth_loop dec wcw st s w
      = getDisplayWidth_loop dec wcw (zeroed dec) (tl s) 0 + (w + 1)" .
next
  assume c: "s \<noteq> [] \<and> mbrtowc dec st s = (MbBytes k, wc, st') \<and> 0 < k"
  from c have c1: "s \<noteq> []" ..
  from c have c2: "mbrtowc dec st s = (MbBytes k, wc, st')" by (simp only:)
  from c have c3: "0 < k" by (simp only:)
  from c1 c2 c3 have step: "getDisplayWidth_loop dec wcw st s w
      = getDisplayWidth_loop dec wcw st' (drop k s) (w + (if wcw wc < 0 then 1 else wcw wc))"
    by (rule loop_Char)
  {
    assume "wcw wc < 0"
    with step have "getDisplayWidth_loop dec wcw st s w
        = getDisplayWidth_loop dec wcw st' (drop k s) (w + 1)" by simp
    also have "\<dots> = getDisplayWidth_loop dec wcw st' (drop k s) 0 + (w + 1)"
      by (rule loop_acc0)
    finally show "getDisplayWidth_loop dec wcw st s w
        = getDisplayWidth_loop dec wcw st' (drop k s) 0 + (w + 1)" .
  }
  {
    assume "0 \<le> wcw wc"
    with step have "getDisplayWidth_loop dec wcw st s w
        = getDisplayWidth_loop dec wcw st' (drop k s) (w + wcw wc)" by simp
    also have "\<dots> = getDisplayWidth_loop dec wcw st' (drop k s) 0 + (w + wcw wc)"
      by (rule loop_acc0)
    finally show "getDisplayWidth_loop dec wcw st s w
        = getDisplayWidth_loop dec wcw st' (drop k s) 0 + (w + wcw wc)" .
  }
qed

theorem getDisplayWidth_scan_witness:
  "getDisplayWidth utf8_decoder wcwidth_sample [0x41, 0, 0x42]
     = getDisplayWidth utf8_decoder wcwidth_sample [0x41] \<and>
   getDisplayWidth utf8_decoder wcwidth_sample [0xE6, 0x97]
     = getDisplayWidth utf8_decoder wcwidth_sample [0x97] + 1 \<and>
   getDisplayWidth utf8_decoder wcwidth_sample [0x80, 0x41]
     = getDisplayWidth utf8_decoder wcwidth_sample [0x41] + 1 \<and>
   getDisplayWidth utf8_decoder wcwidth_sample [0x07, 0x41]
     = getDisplayWidth utf8_decoder wcwidth_sample [0x41] + 1 \<and>
   getDisplayWidth utf8_decoder wcwidth_sample [0xE6, 0x97, 0xA5, 0x41]
     = getDisplayWidth utf8_decoder wcwidth_sample [0x41] + 2"
proof -
  let ?U = utf8_decoder
  let ?W = wcwidth_sample
  have z: "(0::byte) \<notin> set [0x41]" by simp
  have zs: "zeroed ?U = ()" by simp
  have g: "getDisplayWidth ?U ?W x = getDisplayWidth_loop ?U ?W () x 0" if "c_str x = x" for x
    by (simp add: getDisplayWidth_def that)
  have c0: "c_str [0x41] = [0x41 :: byte]" "c_str [0x97] = [0x97 :: byte]"
    by (simp_all add: c_str_def)
  have c1: "c_str [0xE6, 0x97] = [0xE6, 0x97 :: byte]" by (simp add: c_str_def)
  have m1: "fst (mbrtowc ?U () [0xE6, 0x97]) = MbIncomplete" by (simp add: mb_defs)
  have c2: "c_str [0x80, 0x41] = [0x80, 0x41 :: byte]" by (simp add: c_str_def)
  have m2: "fst (mbrtowc ?U () [0x80, 0x41]) = MbInvalid" by (simp add: mb_defs)
  have c3: "c_str [0x07, 0x41] = [0x07, 0x41 :: byte]" by (simp add: c_str_def)
  have m3: "mbrtowc ?U () [0x07, 0x41] = (MbBytes 1, 7, ())"
    by (simp add: mb_defs)
  have w3: "?W 7 < 0" by (simp add: wcwidth_sample_def)
  have c4: "c_str [0xE6, 0x97, 0xA5, 0x41] = [0xE6, 0x97, 0xA5, 0x41 :: byte]"
    by (simp add: c_str_def)
  have m4: "mbrtowc ?U () [0xE6, 0x97, 0xA5, 0x41] = (MbBytes 3, 0x65E5, ())"
    by (simp add: mb_defs)
  have w4: "0 \<le> ?W 0x65E5" "?W 0x65E5 = 2"
    by (simp_all add: wcwidth_sample_def)
  have "getDisplayWidth ?U ?W ([0x41] @ 0 # [0x42]) = getDisplayWidth ?U ?W [0x41]"
    by (rule getDisplayWidth_scan [THEN conjunct2, THEN conjunct2, THEN conjunct1,
          rule_format, OF z])
  then have a: "getDisplayWidth ?U ?W [0x41, 0, 0x42] = getDisplayWidth ?U ?W [0x41]"
    by simp
  note bad = getDisplayWidth_scan [THEN conjunct2, THEN conjunct2, THEN conjunct2,
      THEN conjunct2, THEN conjunct2, THEN conjunct2, THEN conjunct1, rule_format]
  note chr = getDisplayWidth_scan [THEN conjunct2, THEN conjunct2, THEN conjunct2,
      THEN conjunct2, THEN conjunct2, THEN conjunct2, THEN conjunct2, rule_format]
  have "getDisplayWidth_loop ?U ?W () [0xE6, 0x97] 0
      = getDisplayWidth_loop ?U ?W (zeroed ?U) (tl [0xE6, 0x97]) 0 + (0 + 1)"
    by (rule bad) (simp only: m1, simp)
  then have b: "getDisplayWidth ?U ?W [0xE6, 0x97] = getDisplayWidth ?U ?W [0x97] + 1"
    by (simp add: g c0 c1 zs)
  have "getDisplayWidth_loop ?U ?W () [0x80, 0x41] 0
      = getDisplayWidth_loop ?U ?W (zeroed ?U) (tl [0x80, 0x41]) 0 + (0 + 1)"
    by (rule bad) (simp only: m2, simp)
  then have c: "getDisplayWidth ?U ?W [0x80, 0x41] = getDisplayWidth ?U ?W [0x41] + 1"
    by (simp add: g c0 c2 zs)
  have p3: "[0x07, 0x41] \<noteq> [] \<and> mbrtowc ?U () [0x07, 0x41] = (MbBytes 1, 7, ()) \<and> 0 < (1::nat)"
    by (simp only: m3, simp)
  from chr [OF p3] w3
  have "getDisplayWidth_loop ?U ?W () [0x07, 0x41] 0
      = getDisplayWidth_loop ?U ?W () (drop 1 [0x07, 0x41]) 0 + (0 + 1)"
    by blast
  then have d: "getDisplayWidth ?U ?W [0x07, 0x41] = getDisplayWidth ?U ?W [0x41] + 1"
    by (simp add: g c0 c3)
  have p4: "[0xE6, 0x97, 0xA5, 0x41] \<noteq> [] \<and>
      mbrtowc ?U () [0xE6, 0x97, 0xA5, 0x41] = (MbBytes 3, 0x65E5, ()) \<and> 0 < (3::nat)"
    by (simp only: m4, simp)
  from chr [OF p4] w4(1)
  have "getDisplayWidth_loop ?U ?W () [0xE6, 0x97, 0xA5, 0x41] 0
      = getDisplayWidth_loop ?U ?W () (drop 3 [0xE6, 0x97, 0xA5, 0x41]) 0 + (0 + ?W 0x65E5)"
    by blast
  then have e: "getDisplayWidth ?U ?W [0xE6, 0x97, 0xA5, 0x41] = getDisplayWidth ?U ?W [0x41] + 2"
    by (simp add: g c0 c4 w4(2) numeral_3_eq_3)
  from a b c d e show ?thesis by blast
qed

subsection \<open>The sample decoder is conforming\<close>

lemma tail_ok_prefix: "tail_ok b0 (x @ y) \<Longrightarrow> tail_ok b0 x"
  by (cases x) (auto simp: tail_ok_def)

lemma utf8_mbrtowc_Cons:
  "utf8_mbrtowc st (b0 # r) =
     (let n = utf8_len b0 in
      if n = 0 then (MbInvalid, 0, st)
      else if n = 1 then (MbBytes (if b0 = 0 then 0 else 1), unat b0, st)
      else if \<not> tail_ok b0 (take (n - 1) r) then (MbInvalid, 0, st)
      else if length r < n - 1 then (MbIncomplete, 0, st)
      else (MbBytes n, code_point n b0 (take (n - 1) r), st))"
  by (simp add: utf8_mbrtowc_def Let_def)

lemma utf8_mbrtowc_Bytes_append:
  assumes "utf8_mbrtowc st a = (MbBytes k, wc, st')" and "0 < k"
  shows "utf8_mbrtowc st (a @ b) = (MbBytes k, wc, st')"
proof -
  from assms obtain b0 r where a: "a = b0 # r"
    by (cases a) (auto simp: utf8_mbrtowc_def)
  let ?n = "utf8_len b0"
  from assms(1) have n0: "?n \<noteq> 0"
    by (auto simp: a utf8_mbrtowc_Cons Let_def split: if_splits)
  show ?thesis
  proof (cases "?n = 1")
    case True
    then have "utf8_mbrtowc st (b0 # r @ b) = utf8_mbrtowc st (b0 # r)"
      by (simp add: utf8_mbrtowc_Cons Let_def)
    with assms(1) show ?thesis by (simp add: a)
  next
    case False
    with n0 assms(1) have t: "tail_ok b0 (take (?n - 1) r)" and l: "\<not> length r < ?n - 1"
      by (auto simp: a utf8_mbrtowc_Cons Let_def split: if_splits)
    from l have tk: "take (?n - 1) (r @ b) = take (?n - 1) r" by simp
    have r1: "utf8_mbrtowc st (b0 # r)
        = (MbBytes ?n, code_point ?n b0 (take (?n - 1) r), st)"
      using n0 False t l by (simp add: utf8_mbrtowc_Cons Let_def)
    have r2: "utf8_mbrtowc st (b0 # r @ b)
        = (MbBytes ?n, code_point ?n b0 (take (?n - 1) r), st)"
      using n0 False t l tk by (simp add: utf8_mbrtowc_Cons Let_def)
    from r1 r2 have "utf8_mbrtowc st (a @ b) = utf8_mbrtowc st a"
      by (simp only: a append_Cons)
    with assms(1) show ?thesis by (simp only:)
  qed
qed

lemma utf8_mbrtowc_Invalid_append:
  assumes "fst (utf8_mbrtowc st a) = MbInvalid" and "a \<noteq> []"
  shows "fst (utf8_mbrtowc st (a @ b)) = MbInvalid"
proof -
  from assms(2) obtain b0 r where a: "a = b0 # r" by (cases a) auto
  let ?n = "utf8_len b0"
  show ?thesis
  proof (cases "?n = 0")
    case True
    then show ?thesis by (simp add: a utf8_mbrtowc_Cons Let_def)
  next
    case False
    with assms(1) have n1: "?n \<noteq> 1" and t: "\<not> tail_ok b0 (take (?n - 1) r)"
      by (auto simp: a utf8_mbrtowc_Cons Let_def split: if_splits)
    have "take (?n - 1) (r @ b) = take (?n - 1) r @ take (?n - 1 - length r) b" by simp
    with t have "\<not> tail_ok b0 (take (?n - 1) (r @ b))"
      using tail_ok_prefix by metis
    with False n1 show ?thesis by (simp add: a utf8_mbrtowc_Cons Let_def)
  qed
qed

lemma utf8_mbrtowc_Null:
  assumes "fst (utf8_mbrtowc st a) = MbBytes 0"
  shows "a \<noteq> [] \<and> hd a = 0"
proof -
  from assms obtain b0 r where a: "a = b0 # r"
    by (cases a) (auto simp: utf8_mbrtowc_def)
  from assms have "b0 = 0"
    by (auto simp: a utf8_mbrtowc_Cons utf8_len_def Let_def split: if_splits)
  with a show ?thesis by simp
qed

lemma utf8_decoder_conforming: "conforming utf8_decoder"
  unfolding conforming_def
proof (intro allI conjI impI)
  fix st s t k wc st'
  assume "mbrtowc utf8_decoder st s = (MbBytes k, wc, st') \<and> 0 < k \<and> k \<le> length s"
  then show "mbrtowc utf8_decoder st (s @ t) = (MbBytes k, wc, st')"
    by (simp add: utf8_decoder_def utf8_mbrtowc_Bytes_append)
next
  fix st s t
  assume "s \<noteq> [] \<and> fst (mbrtowc utf8_decoder st s) = MbInvalid"
  then have "fst (mbrtowc utf8_decoder st (s @ t)) = MbInvalid"
    by (simp add: utf8_decoder_def utf8_mbrtowc_Invalid_append)
  then show "fst (mbrtowc utf8_decoder st (s @ t)) = MbInvalid \<or>
      fst (mbrtowc utf8_decoder st (s @ t)) = MbIncomplete" ..
next
  fix st s
  assume "fst (mbrtowc utf8_decoder st s) = MbBytes 0"
  then have n: "s \<noteq> [] \<and> hd s = 0"
    by (simp add: utf8_decoder_def utf8_mbrtowc_Null)
  from n show "s \<noteq> []" ..
  from n show "hd s = 0" ..
qed

subsection \<open>Claim C7\<close>

text \<open>
  C7, as stated: \<open>displayWidth (a @ b) = displayWidth a + displayWidth b\<close> whenever \<open>a\<close> ends
  on a code-point boundary.  The scan stops at the first null byte, and the null character
  is a code point of one byte: for \<open>a\<close> the single byte 0 and \<open>b\<close> the letter A, the left
  side is 0 and the right side is 1.
\<close>

theorem getDisplayWidth_append_nul:
  "conforming utf8_decoder \<and>
   ends_on_boundary utf8_decoder (zeroed utf8_decoder) [0] \<and>
   getDisplayWidth utf8_decoder wcwidth_sample ([0] @ [0x41]) = 0 \<and>
   getDisplayWidth utf8_decoder wcwidth_sample [0] + getDisplayWidth utf8_decoder wcwidth_sample [0x41] = 1"
proof -
  have "ends_on_boundary utf8_decoder (zeroed utf8_decoder) [0] \<and>
   getDisplayWidth utf8_decoder wcwidth_sample ([0] @ [0x41]) = 0 \<and>
   getDisplayWidth utf8_decoder wcwidth_sample [0] + getDisplayWidth utf8_decoder wcwidth_sample [0x41] = 1"
    by (simp add: ends_on_boundary.simps width_eval)
  with utf8_decoder_conforming show ?thesis by (simp only: simp_thms)
qed

text \<open>
  The boundary cannot be dropped either: the two bytes of U+00E9 count one column each when
  measured apart, and one column together.
\<close>

lemma getDisplayWidth_split_character:
  "\<not> ends_on_boundary utf8_decoder (zeroed utf8_decoder) [0xC3] \<and>
   getDisplayWidth utf8_decoder wcwidth_sample ([0xC3] @ [0xA9]) = 1 \<and>
   getDisplayWidth utf8_decoder wcwidth_sample [0xC3] + getDisplayWidth utf8_decoder wcwidth_sample [0xA9] = 2"
  by (simp add: ends_on_boundary.simps width_eval)

lemma conforming_Bytes:
  "conforming dec \<Longrightarrow> mbrtowc dec st s = (MbBytes k, wc, st') \<Longrightarrow> 0 < k \<Longrightarrow> k \<le> length s \<Longrightarrow>
   mbrtowc dec st (s @ t) = (MbBytes k, wc, st')"
  unfolding conforming_def by blast

lemma conforming_Invalid:
  "conforming dec \<Longrightarrow> s \<noteq> [] \<Longrightarrow> fst (mbrtowc dec st s) = MbInvalid \<Longrightarrow>
   fst (mbrtowc dec st (s @ t)) = MbInvalid \<or> fst (mbrtowc dec st (s @ t)) = MbIncomplete"
  unfolding conforming_def by blast

lemma conforming_Null:
  "conforming dec \<Longrightarrow> fst (mbrtowc dec st s) = MbBytes 0 \<Longrightarrow> s \<noteq> [] \<and> hd s = 0"
  unfolding conforming_def by blast

lemma loop_append:
  "conforming dec \<Longrightarrow> 0 \<notin> set a \<Longrightarrow> ends_on_boundary dec st a \<Longrightarrow>
   getDisplayWidth_loop dec wcw st (a @ b) 0
     = getDisplayWidth_loop dec wcw st a 0 + getDisplayWidth_loop dec wcw (zeroed dec) b 0"
proof (induction dec st a rule: ends_on_boundary.induct)
  case (1 dec st a)
  note conf = "1.prems"(1)
  show ?case
  proof (cases "a = []")
    case True
    with "1.prems"(3) have "st = zeroed dec"
      by (subst (asm) ends_on_boundary.simps) simp
    with True show ?thesis by (simp add: loop_Nil)
  next
    case False
    then have ab: "a @ b \<noteq> []" by simp
    from False "1.prems"(2) have hd0: "hd a \<noteq> 0" by (cases a) auto
    from "1.prems"(2) have tl0: "0 \<notin> set (tl a)" by (cases a) auto
    obtain r wc st' where m: "mbrtowc dec st a = (r, wc, st')"
      by (cases "mbrtowc dec st a") auto
    show ?thesis
    proof (cases r)
      case MbInvalid
      with m have f: "fst (mbrtowc dec st a) = MbInvalid" by simp
      with conf False have fab: "fst (mbrtowc dec st (a @ b)) = MbInvalid \<or>
          fst (mbrtowc dec st (a @ b)) = MbIncomplete"
        by (rule conforming_Invalid)
      from "1.prems"(3) m MbInvalid False have e: "ends_on_boundary dec (zeroed dec) (tl a)"
        by (subst (asm) ends_on_boundary.simps) simp
      have ih: "getDisplayWidth_loop dec wcw (zeroed dec) (tl a @ b) 0
          = getDisplayWidth_loop dec wcw (zeroed dec) (tl a) 0
            + getDisplayWidth_loop dec wcw (zeroed dec) b 0"
        using "1.IH"(1) [of r "(wc, st')" wc st'] False m MbInvalid conf tl0 e by simp
      have "getDisplayWidth_loop dec wcw st (a @ b) 0
          = getDisplayWidth_loop dec wcw (zeroed dec) (tl (a @ b)) (0 + 1)"
        using ab fab by (rule loop_Invalid)
      also have "\<dots> = getDisplayWidth_loop dec wcw (zeroed dec) (tl a @ b) 0 + 1"
        using False loop_acc0 [of dec wcw "zeroed dec" "tl a @ b" 1] by simp
      also have "getDisplayWidth_loop dec wcw st a 0
          = getDisplayWidth_loop dec wcw (zeroed dec) (tl a) (0 + 1)"
        using False f by (intro loop_Invalid) auto
      then have "getDisplayWidth_loop dec wcw (zeroed dec) (tl a) 0 + 1
          = getDisplayWidth_loop dec wcw st a 0"
        using loop_acc0 [of dec wcw "zeroed dec" "tl a" 1] by simp
      with ih have "getDisplayWidth_loop dec wcw (zeroed dec) (tl a @ b) 0 + 1
          = getDisplayWidth_loop dec wcw st a 0 + getDisplayWidth_loop dec wcw (zeroed dec) b 0"
        by simp
      finally show ?thesis .
    next
      case MbIncomplete
      with "1.prems"(3) m False show ?thesis
        by (subst (asm) ends_on_boundary.simps) simp
    next
      case (MbBytes k)
      with m have m': "mbrtowc dec st a = (MbBytes k, wc, st')" by simp
      have kpos: "0 < k"
      proof (rule ccontr)
        assume "\<not> 0 < k"
        with m' have "fst (mbrtowc dec st a) = MbBytes 0" by simp
        with conf have "a \<noteq> [] \<and> hd a = 0" by (rule conforming_Null)
        with hd0 show False by simp
      qed
      from "1.prems"(3) m' False have kle: "k \<le> length a"
        by (subst (asm) ends_on_boundary.simps) (simp split: if_splits)
      from conf m' kpos kle have mab: "mbrtowc dec st (a @ b) = (MbBytes k, wc, st')"
        by (rule conforming_Bytes)
      from kpos have mk: "max 1 k = k" "max (Suc 0) k = k" by simp_all
      from "1.prems"(3) m' False kle have e: "ends_on_boundary dec st' (drop k a)"
        by (subst (asm) ends_on_boundary.simps) (simp add: mk)
      from "1.prems"(2) have d0: "0 \<notin> set (drop k a)" by (meson in_set_dropD)
      let ?cw = "if wcw wc < 0 then 1 else wcw wc"
      have ih: "getDisplayWidth_loop dec wcw st' (drop k a @ b) 0
          = getDisplayWidth_loop dec wcw st' (drop k a) 0
            + getDisplayWidth_loop dec wcw (zeroed dec) b 0"
        using "1.IH"(2) [of r "(wc, st')" k wc st'] False m MbBytes conf d0 e mk kle by simp
      have "getDisplayWidth_loop dec wcw st (a @ b) 0
          = getDisplayWidth_loop dec wcw st' (drop k (a @ b)) (0 + ?cw)"
        by (rule loop_Char [OF ab mab kpos])
      also have "\<dots> = getDisplayWidth_loop dec wcw st' (drop k a @ b) 0 + ?cw"
        using kle loop_acc0 [of dec wcw st' "drop k a @ b" ?cw] by simp
      also have "getDisplayWidth_loop dec wcw st a 0
          = getDisplayWidth_loop dec wcw st' (drop k a) (0 + ?cw)"
        by (rule loop_Char [OF False m' kpos])
      then have "getDisplayWidth_loop dec wcw st' (drop k a) 0 + ?cw
          = getDisplayWidth_loop dec wcw st a 0"
        using loop_acc0 [of dec wcw st' "drop k a" ?cw] by simp
      with ih have "getDisplayWidth_loop dec wcw st' (drop k a @ b) 0 + ?cw
          = getDisplayWidth_loop dec wcw st a 0 + getDisplayWidth_loop dec wcw (zeroed dec) b 0"
        by simp
      finally show ?thesis .
    qed
  qed
qed

text \<open>
  C7, amended: \<open>displayWidth (a @ b) = displayWidth a + displayWidth b\<close> whenever \<open>a\<close> holds
  no null byte and ends on a code-point boundary, for every table of widths and every
  conforming decoder.
\<close>

theorem getDisplayWidth_append:
  "conforming dec \<Longrightarrow> 0 \<notin> set a \<Longrightarrow> ends_on_boundary dec (zeroed dec) a \<Longrightarrow>
   getDisplayWidth dec wcw (a @ b) = getDisplayWidth dec wcw a + getDisplayWidth dec wcw b"
  by (simp add: getDisplayWidth_def c_str_append c_str_no_nul loop_append)

theorem getDisplayWidth_append_witness:
  "getDisplayWidth utf8_decoder wcwidth_sample ([0xE6, 0x97, 0xA5, 0x80] @ [0xE6, 0x9C, 0xAC, 0x21])
     = getDisplayWidth utf8_decoder wcwidth_sample [0xE6, 0x97, 0xA5, 0x80]
       + getDisplayWidth utf8_decoder wcwidth_sample [0xE6, 0x9C, 0xAC, 0x21]"
proof -
  have z: "(0::byte) \<notin> set [0xE6, 0x97, 0xA5, 0x80]" by simp
  have e: "ends_on_boundary utf8_decoder (zeroed utf8_decoder) [0xE6, 0x97, 0xA5, 0x80]"
    by (simp add: ends_on_boundary.simps mb_defs)
  show ?thesis by (rule getDisplayWidth_append [OF utf8_decoder_conforming z e])
qed

section \<open>The parser reads a C string\<close>

lemma NL_not_0: "NL \<noteq> 0"
  by (simp add: NL_def)

lemma skip_newlines_step: "at mem p = NL \<Longrightarrow> skip_newlines mem p = skip_newlines mem (Suc p)"
  by (subst skip_newlines.simps) simp

lemma skip_newlines_stop: "at mem p \<noteq> NL \<Longrightarrow> skip_newlines mem p = p"
  by (subst skip_newlines.simps) simp

lemma strlen_step: "at mem p \<noteq> 0 \<Longrightarrow> strlen mem p = Suc (strlen mem (Suc p))"
  by (subst strlen.simps) simp

lemma strlen_stop: "at mem p = 0 \<Longrightarrow> strlen mem p = 0"
  by (subst strlen.simps) simp

lemma strstr_nn_stop: "at mem p = 0 \<Longrightarrow> strstr_nn mem p = None"
  by (subst strstr_nn.simps) simp

lemma strstr_nn_found:
  "at mem p = NL \<Longrightarrow> at mem (Suc p) = NL \<Longrightarrow> strstr_nn mem p = Some p"
  by (subst strstr_nn.simps) (simp add: NL_not_0)

lemma strstr_nn_step:
  "at mem p \<noteq> 0 \<Longrightarrow> \<not> (at mem p = NL \<and> at mem (Suc p) = NL) \<Longrightarrow>
   strstr_nn mem p = strstr_nn mem (Suc p)"
  by (subst strstr_nn.simps) auto

lemma find_line_end_step:
  "lineEnd < paraEnd \<Longrightarrow> at mem lineEnd \<noteq> NL \<Longrightarrow>
   find_line_end mem paraEnd lineEnd = find_line_end mem paraEnd (Suc lineEnd)"
  by (subst find_line_end.simps) simp

lemma find_line_end_stop_eq:
  "\<not> (lineEnd < paraEnd \<and> at mem lineEnd \<noteq> NL) \<Longrightarrow>
   find_line_end mem paraEnd lineEnd = lineEnd"
  by (subst find_line_end.simps) auto

lemma find_line_end_le:
  "lineEnd \<le> paraEnd \<Longrightarrow> find_line_end mem paraEnd lineEnd \<le> paraEnd"
proof (induction mem paraEnd lineEnd rule: find_line_end.induct)
  case (1 mem paraEnd lineEnd)
  show ?case
  proof (cases "lineEnd < paraEnd \<and> at mem lineEnd \<noteq> NL")
    case True
    with 1 show ?thesis by (simp add: find_line_end_step)
  next
    case False
    with 1 show ?thesis by (simp add: find_line_end_stop_eq)
  qed
qed

lemma agree_at: "agree L m1 m2 \<Longrightarrow> p \<le> L \<Longrightarrow> at m1 p = at m2 p"
  by (simp add: agree_def)

lemma agree_end: "agree L m1 m2 \<Longrightarrow> at m1 L = 0"
  by (simp add: agree_def)

lemma agree_less: "agree L m1 m2 \<Longrightarrow> p \<le> L \<Longrightarrow> at m1 p \<noteq> 0 \<Longrightarrow> Suc p \<le> L"
  by (metis agree_end Suc_leI le_neq_implies_less)

lemma agree_skip_newlines:
  "agree L m1 m2 \<Longrightarrow> p \<le> L \<Longrightarrow>
   skip_newlines m1 p = skip_newlines m2 p \<and> skip_newlines m1 p \<le> L"
proof (induction m1 p rule: skip_newlines.induct)
  case (1 m1 p)
  from "1.prems" have eq: "at m2 p = at m1 p" by (simp add: agree_at)
  show ?case
  proof (cases "at m1 p = NL")
    case True
    with "1.prems" have "Suc p \<le> L" by (intro agree_less) (auto simp: NL_not_0)
    with "1.IH" True "1.prems" have "skip_newlines m1 (Suc p) = skip_newlines m2 (Suc p)
        \<and> skip_newlines m1 (Suc p) \<le> L" by simp
    with True eq show ?thesis by (simp add: skip_newlines_step)
  next
    case False
    with eq "1.prems" show ?thesis by (simp add: skip_newlines_stop)
  qed
qed

lemma agree_strlen:
  "agree L m1 m2 \<Longrightarrow> p \<le> L \<Longrightarrow> strlen m1 p = strlen m2 p \<and> p + strlen m1 p \<le> L"
proof (induction m1 p rule: strlen.induct)
  case (1 m1 p)
  from "1.prems" have eq: "at m2 p = at m1 p" by (simp add: agree_at)
  show ?case
  proof (cases "at m1 p = 0")
    case True
    with eq "1.prems" show ?thesis by (simp add: strlen_stop)
  next
    case False
    with "1.prems" have "Suc p \<le> L" by (intro agree_less)
    with "1.IH" False "1.prems" have "strlen m1 (Suc p) = strlen m2 (Suc p)
        \<and> Suc p + strlen m1 (Suc p) \<le> L" by simp
    with False eq show ?thesis by (simp add: strlen_step)
  qed
qed

lemma agree_strstr_nn:
  "agree L m1 m2 \<Longrightarrow> p \<le> L \<Longrightarrow>
   strstr_nn m1 p = strstr_nn m2 p \<and> (\<forall>q. strstr_nn m1 p = Some q \<longrightarrow> q + 2 \<le> L)"
proof (induction m1 p rule: strstr_nn.induct)
  case (1 m1 p)
  from "1.prems" have eq: "at m2 p = at m1 p" by (simp add: agree_at)
  show ?case
  proof (cases "at m1 p = 0")
    case True
    with eq show ?thesis by (simp add: strstr_nn_stop)
  next
    case False
    with "1.prems" have le: "Suc p \<le> L" by (intro agree_less)
    with "1.prems" have eq1: "at m2 (Suc p) = at m1 (Suc p)" by (simp add: agree_at)
    show ?thesis
    proof (cases "at m1 p = NL \<and> at m1 (Suc p) = NL")
      case True
      with "1.prems" le have "Suc (Suc p) \<le> L" by (intro agree_less) (auto simp: NL_not_0)
      with True eq eq1 show ?thesis by (simp add: strstr_nn_found)
    next
      case nf: False
      with "1.IH" False le "1.prems" have "strstr_nn m1 (Suc p) = strstr_nn m2 (Suc p)
        \<and> (\<forall>q. strstr_nn m1 (Suc p) = Some q \<longrightarrow> q + 2 \<le> L)" by simp
      moreover from False nf have "strstr_nn m1 p = strstr_nn m1 (Suc p)"
        by (rule strstr_nn_step)
      moreover from False nf eq eq1 have "strstr_nn m2 p = strstr_nn m2 (Suc p)"
        by (intro strstr_nn_step) auto
      ultimately show ?thesis by simp
    qed
  qed
qed

lemma agree_find_line_end:
  "agree L m1 m2 \<Longrightarrow> e \<le> L \<Longrightarrow> find_line_end m1 e p = find_line_end m2 e p"
proof (induction m1 e p rule: find_line_end.induct)
  case (1 m1 e p)
  show ?case
  proof (cases "p < e")
    case True
    with "1.prems" have eq: "at m2 p = at m1 p" by (simp add: agree_at)
    show ?thesis
    proof (cases "at m1 p \<noteq> NL")
      case ne: True
      with "1.IH" True "1.prems" have "find_line_end m1 e (Suc p) = find_line_end m2 e (Suc p)"
        by simp
      with True ne eq show ?thesis by (simp add: find_line_end_step)
    next
      case False
      with eq show ?thesis by (simp add: find_line_end_stop_eq)
    qed
  next
    case False
    then show ?thesis by (simp add: find_line_end_stop_eq)
  qed
qed

lemma agree_strncpy:
  "agree L m1 m2 \<Longrightarrow> p + n \<le> L \<Longrightarrow> strncpy m1 p n = strncpy m2 p n"
proof -
  assume a: "agree L m1 m2" and le: "p + n \<le> L"
  have "map (at m1) [p ..< p + n] = map (at m2) [p ..< p + n]"
    using a le by (intro map_cong) (auto simp: agree_at)
  then show ?thesis by (simp only: strncpy_def)
qed

lemma parse_lines_stop:
  "\<not> (lineStart < paraEnd \<and> at mem lineStart \<noteq> 0) \<Longrightarrow>
   parse_lines al mem paraEnd lineStart para n = (Some para, n)"
  by (subst parse_lines.simps) auto

lemma parse_lines_fail:
  "lineStart < paraEnd \<Longrightarrow> at mem lineStart \<noteq> 0 \<Longrightarrow> \<not> al n \<Longrightarrow>
   parse_lines al mem paraEnd lineStart para n = (None, n + 1)"
  by (subst parse_lines.simps) (simp add: Let_def)

lemma parse_lines_step:
  "lineStart < paraEnd \<Longrightarrow> at mem lineStart \<noteq> 0 \<Longrightarrow> al n \<Longrightarrow>
   parse_lines al mem paraEnd lineStart para n =
     parse_lines al mem paraEnd (next_line mem paraEnd lineStart)
       (fst (addLineToParagraph al para (line_at mem paraEnd lineStart) (n + 1)))
       (snd (addLineToParagraph al para (line_at mem paraEnd lineStart) (n + 1)))"
  by (subst parse_lines.simps) (simp add: Let_def next_line_def line_at_def split: prod.splits)

lemma next_line_gt:
  "lineStart < paraEnd \<Longrightarrow> lineStart < next_line mem paraEnd lineStart"
proof -
  assume lt: "lineStart < paraEnd"
  let ?e = "find_line_end mem paraEnd lineStart"
  have ge: "lineStart \<le> ?e" by (rule find_line_end_ge)
  show ?thesis
  proof (cases "?e < paraEnd")
    case True
    then have "at mem ?e = NL" by (rule find_line_end_stop)
    with True ge show ?thesis by (simp add: next_line_def Let_def)
  next
    case False
    with lt ge show ?thesis by (simp add: next_line_def Let_def)
  qed
qed

lemma next_line_le:
  "lineStart \<le> paraEnd \<Longrightarrow> next_line mem paraEnd lineStart \<le> paraEnd"
  using find_line_end_le [of lineStart paraEnd mem]
  by (auto simp: next_line_def Let_def)

lemma agree_next_line:
  "agree L m1 m2 \<Longrightarrow> e \<le> L \<Longrightarrow> p \<le> e \<Longrightarrow> next_line m1 e p = next_line m2 e p"
proof -
  assume a: "agree L m1 m2" and e: "e \<le> L" and p: "p \<le> e"
  have f: "find_line_end m1 e p = find_line_end m2 e p"
    using a e by (rule agree_find_line_end)
  have "find_line_end m1 e p \<le> L"
    using find_line_end_le [OF p, of m1] e by simp
  with a have "at m1 (find_line_end m1 e p) = at m2 (find_line_end m1 e p)"
    by (rule agree_at)
  with f show ?thesis by (simp add: next_line_def Let_def)
qed

lemma agree_line_at:
  "agree L m1 m2 \<Longrightarrow> e \<le> L \<Longrightarrow> p \<le> e \<Longrightarrow> line_at m1 e p = line_at m2 e p"
proof -
  assume a: "agree L m1 m2" and e: "e \<le> L" and p: "p \<le> e"
  have f: "find_line_end m1 e p = find_line_end m2 e p"
    using a e by (rule agree_find_line_end)
  have "p + (find_line_end m1 e p - p) \<le> L"
    using find_line_end_le [OF p, of m1] find_line_end_ge [of p m1 e] e by simp
  with a have "strncpy m1 p (find_line_end m1 e p - p) = strncpy m2 p (find_line_end m1 e p - p)"
    by (rule agree_strncpy)
  with f show ?thesis by (simp add: line_at_def)
qed

lemma agree_parse_lines:
  "agree L m1 m2 \<Longrightarrow> e \<le> L \<Longrightarrow> p \<le> e \<Longrightarrow>
   parse_lines al m1 e p para n = parse_lines al m2 e p para n"
proof (induction "e - p" arbitrary: p para n rule: less_induct)
  case less
  note a = \<open>agree L m1 m2\<close> and e = \<open>e \<le> L\<close> and p = \<open>p \<le> e\<close>
  from a e p have eq: "at m2 p = at m1 p" by (simp add: agree_at)
  show ?case
  proof (cases "p < e \<and> at m1 p \<noteq> 0")
    case False
    with eq show ?thesis by (simp add: parse_lines_stop)
  next
    case True
    show ?thesis
    proof (cases "al n")
      case False
      with True eq show ?thesis by (simp add: parse_lines_fail)
    next
      case al: True
      have nl: "next_line m2 e p = next_line m1 e p"
        using a e p by (rule agree_next_line [symmetric])
      have la: "line_at m2 e p = line_at m1 e p"
        using a e p by (rule agree_line_at [symmetric])
      from True have gt: "p < next_line m1 e p" by (intro next_line_gt) simp
      from p have le: "next_line m1 e p \<le> e" by (rule next_line_le)
      from gt le have "e - next_line m1 e p < e - p" by simp
      from less.hyps [OF this a e le]
      have "parse_lines al m1 e (next_line m1 e p) para' n'
          = parse_lines al m2 e (next_line m1 e p) para' n'" for para' n' .
      with True al eq nl la show ?thesis by (simp add: parse_lines_step)
    qed
  qed
qed

lemma parse_paragraphs_stop:
  "at mem textPtr = 0 \<or> at mem (skip_newlines mem textPtr) = 0 \<Longrightarrow>
   parse_paragraphs al mem textPtr doc n = (Some doc, n)"
  by (subst parse_paragraphs.simps) (auto simp: Let_def)

lemma parse_paragraphs_step:
  "at mem textPtr \<noteq> 0 \<Longrightarrow> at mem (skip_newlines mem textPtr) \<noteq> 0 \<Longrightarrow>
   parse_paragraphs al mem textPtr doc n =
     (case createParagraph al n of
        (None, n1) \<Rightarrow> (None, n1)
      | (Some para, n1) \<Rightarrow>
          (case parse_lines al mem (para_end mem (skip_newlines mem textPtr))
                  (skip_newlines mem textPtr) para n1 of
             (None, n2) \<Rightarrow> (None, n2)
           | (Some para', n2) \<Rightarrow>
               parse_paragraphs al mem (next_para mem (skip_newlines mem textPtr))
                 (fst (addParagraphToDocument al doc para' n2))
                 (snd (addParagraphToDocument al doc para' n2))))"
  by (subst parse_paragraphs.simps)
     (simp add: Let_def para_end_def next_para_def split: prod.splits option.splits)

lemma para_end_ge: "paraStart \<le> para_end mem paraStart"
  by (auto simp: para_end_def strstr_nn_ge split: option.splits)

lemma next_para_gt: "at mem paraStart \<noteq> 0 \<Longrightarrow> paraStart < next_para mem paraStart"
  using strlen_pos [of mem paraStart]
  by (auto simp: next_para_def para_end_def split: option.splits dest: strstr_nn_ge)

lemma agree_para_end:
  "agree L m1 m2 \<Longrightarrow> p \<le> L \<Longrightarrow>
   para_end m1 p = para_end m2 p \<and> next_para m1 p = next_para m2 p \<and>
   para_end m1 p \<le> L \<and> next_para m1 p \<le> L"
  using agree_strstr_nn [of L m1 m2 p] agree_strlen [of L m1 m2 p]
  by (auto simp: para_end_def next_para_def split: option.splits)

lemma agree_parse_paragraphs:
  "agree L m1 m2 \<Longrightarrow> p \<le> L \<Longrightarrow>
   parse_paragraphs al m1 p doc n = parse_paragraphs al m2 p doc n"
proof (induction "L - p" arbitrary: p doc n rule: less_induct)
  case less
  note a = \<open>agree L m1 m2\<close> and p = \<open>p \<le> L\<close>
  from a p have eq: "at m2 p = at m1 p" by (simp add: agree_at)
  from agree_skip_newlines [OF a p]
  have sk: "skip_newlines m2 p = skip_newlines m1 p" and skle: "skip_newlines m1 p \<le> L"
    by simp_all
  let ?s = "skip_newlines m1 p"
  from a skle have eqs: "at m2 ?s = at m1 ?s" by (simp add: agree_at)
  show ?case
  proof (cases "at m1 p = 0 \<or> at m1 ?s = 0")
    case True
    with eq eqs sk show ?thesis by (auto simp: parse_paragraphs_stop)
  next
    case False
    then have nz: "at m1 p \<noteq> 0" and nzs: "at m1 ?s \<noteq> 0" by simp_all
    from agree_para_end [OF a skle]
    have pe: "para_end m2 ?s = para_end m1 ?s" and np: "next_para m2 ?s = next_para m1 ?s"
      and pel: "para_end m1 ?s \<le> L" and npl: "next_para m1 ?s \<le> L"
      by simp_all
    have pl: "parse_lines al m2 (para_end m1 ?s) ?s para' n'
        = parse_lines al m1 (para_end m1 ?s) ?s para' n'" for para' n'
      using agree_parse_lines [OF a pel para_end_ge] by simp
    have "p \<le> ?s" by (rule skip_newlines_ge)
    with next_para_gt [OF nzs] have "p < next_para m1 ?s" by simp
    with npl have "L - next_para m1 ?s < L - p" by simp
    from less.hyps [OF this a npl]
    have ih: "parse_paragraphs al m1 (next_para m1 ?s) doc' n'
        = parse_paragraphs al m2 (next_para m1 ?s) doc' n'" for doc' n' .
    have "parse_paragraphs al m2 p doc n =
     (case createParagraph al n of
        (None, n1) \<Rightarrow> (None, n1)
      | (Some para, n1) \<Rightarrow>
          (case parse_lines al m1 (para_end m1 ?s) ?s para n1 of
             (None, n2) \<Rightarrow> (None, n2)
           | (Some para', n2) \<Rightarrow>
               parse_paragraphs al m1 (next_para m1 ?s)
                 (fst (addParagraphToDocument al doc para' n2))
                 (snd (addParagraphToDocument al doc para' n2))))"
      using nz nzs eq eqs
      by (subst parse_paragraphs_step)
         (simp_all add: sk pe np pl ih split: prod.splits option.splits)
    also have "\<dots> = parse_paragraphs al m1 p doc n"
      using nz nzs by (rule parse_paragraphs_step [symmetric])
    finally show ?thesis by simp
  qed
qed

lemma at_c_str: "p \<le> length (c_str mem) \<Longrightarrow> at (c_str mem) p = at mem p"
proof (cases "p < length (c_str mem)")
  case True
  then have "c_str mem ! p = mem ! p"
    unfolding c_str_def by (rule takeWhile_nth)
  moreover have "length (c_str mem) \<le> length mem"
    unfolding c_str_def by (rule length_takeWhile_le)
  ultimately show ?thesis using True by (simp add: at_def)
next
  case False
  assume "p \<le> length (c_str mem)"
  with False have p: "p = length (c_str mem)" by simp
  have "at mem (length (takeWhile (\<lambda>c. c \<noteq> 0) mem)) = 0"
  proof (cases "length (takeWhile (\<lambda>c. c \<noteq> 0) mem) < length mem")
    case True
    from nth_length_takeWhile [OF True] True show ?thesis by (simp add: at_def)
  next
    case False
    then show ?thesis by (simp add: at_def)
  qed
  then show ?thesis by (simp add: p at_def c_str_def)
qed

lemma agree_c_str: "agree (length (c_str mem)) (c_str mem) mem"
proof -
  have "at (c_str mem) (length (c_str mem)) = 0" by (simp add: at_def)
  moreover have "\<forall>p\<le>length (c_str mem). at (c_str mem) p = at mem p"
    by (simp add: at_c_str)
  ultimately show ?thesis unfolding agree_def by blast
qed

lemma parseDocument_c_str: "parseDocument al (c_str mem) = parseDocument al mem"
  using agree_parse_paragraphs [OF agree_c_str, of 0 mem al]
  by (simp add: parseDocument_def split: prod.splits option.splits)

lemmas parse_eval =
  parseDocument_def createDocument_def createParagraph_def addLineToParagraph_def
  addParagraphToDocument_def no_failure_def parse_paragraphs.simps parse_lines.simps
  skip_newlines.simps find_line_end.simps strstr_nn.simps strlen.simps strncpy_def strdup_def
  c_str_def at_def NL_def lineCount_def paragraphCount_def Let_def

lemmas print_eval =
  cntr_main_def printCenteredDocument_def print_line_def padding_of_def getTerminalWidth_def
  tty_def getDisplayWidth_def getDisplayWidth_loop.simps mb_defs wcwidth_sample_def
  signed_divide_int_def SP_def

text \<open>
  C10: the output of the program depends on the bytes before the first null byte of the
  input only.  \<^verbatim>\<open>parseDocument\<close> and \<^verbatim>\<open>getDisplayWidth\<close> give the same result for a buffer and
  for the string in front of its first null byte, whatever the allocator does; so does the
  whole run, and what follows a null byte can be replaced or left out.
\<close>

theorem cntr_main_before_first_null:
  "parseDocument al inputContent = parseDocument al (c_str inputContent) \<and>
   getDisplayWidth dec wcw inputContent = getDisplayWidth dec wcw (c_str inputContent) \<and>
   cntr_main al dec wcw os inputContent = cntr_main al dec wcw os (c_str inputContent) \<and>
   (0 \<notin> set s \<longrightarrow> cntr_main al dec wcw os (s @ 0 # rest) = cntr_main al dec wcw os s)"
proof (intro conjI impI)
  show "parseDocument al inputContent = parseDocument al (c_str inputContent)"
    by (rule parseDocument_c_str [symmetric])
  show "getDisplayWidth dec wcw inputContent = getDisplayWidth dec wcw (c_str inputContent)"
    by (rule getDisplayWidth_c_str [symmetric])
  show "cntr_main al dec wcw os inputContent = cntr_main al dec wcw os (c_str inputContent)"
    by (simp add: cntr_main_def parseDocument_c_str)
next
  assume z: "0 \<notin> set s"
  have "parseDocument al (s @ 0 # rest) = parseDocument al (c_str (s @ 0 # rest))"
    by (rule parseDocument_c_str [symmetric])
  also from z have "c_str (s @ 0 # rest) = s" by (rule c_str_append_nul)
  finally show "cntr_main al dec wcw os (s @ 0 # rest) = cntr_main al dec wcw os s"
    by (simp add: cntr_main_def)
qed

theorem cntr_main_before_first_null_witness:
  "cntr_main no_failure utf8_decoder wcwidth_sample (tty 20) ([0x68, 0x69] @ 0 # [0x0A, 0x0A, 0x77])
     = cntr_main no_failure utf8_decoder wcwidth_sample (tty 20) [0x68, 0x69] \<and>
   cntr_main no_failure utf8_decoder wcwidth_sample (tty 20) [0x68, 0x69]
     = (replicate 9 0x20 @ [0x68, 0x69, 0x0A], 0)"
proof -
  have z: "(0::byte) \<notin> set [0x68, 0x69]" by simp
  from cntr_main_before_first_null [of _ _ _ _ _ "[0x68, 0x69]"] z
  have "cntr_main no_failure utf8_decoder wcwidth_sample (tty 20) ([0x68, 0x69] @ 0 # [0x0A, 0x0A, 0x77])
     = cntr_main no_failure utf8_decoder wcwidth_sample (tty 20) [0x68, 0x69]"
    by blast
  moreover have "cntr_main no_failure utf8_decoder wcwidth_sample (tty 20) [0x68, 0x69]
     = (replicate 9 0x20 @ [0x68, 0x69, 0x0A], 0)"
    by (simp add: parse_eval print_eval)
  ultimately show ?thesis by simp
qed

section \<open>The parser finds the paragraphs: claims C4 and C5\<close>

lemma takeWhile_hd_tl: "xs \<noteq> [] \<Longrightarrow> P (hd xs) \<Longrightarrow> takeWhile P xs = hd xs # takeWhile P (tl xs)"
  by (cases xs) auto

lemma dropWhile_hd_tl: "xs \<noteq> [] \<Longrightarrow> P (hd xs) \<Longrightarrow> dropWhile P xs = dropWhile P (tl xs)"
  by (cases xs) auto

lemma split_nl_not_Nil [simp]: "split_nl s \<noteq> []"
  by (cases s) auto

lemma split_nl_hd_tl: "hd (split_nl s) # tl (split_nl s) = split_nl s"
  by simp

lemma hd_split_nl_Cons: "c \<noteq> NL \<Longrightarrow> hd (split_nl (c # s)) \<noteq> []"
  by simp

lemma hd_split_nl_NL [simp]: "hd (split_nl (NL # s)) = []"
  by simp

lemma lines_of_not_Nil: "u \<noteq> [] \<Longrightarrow> lines_of u \<noteq> []"
  by (cases u) auto

lemma lines_of_line:
  "u \<noteq> [] \<Longrightarrow>
   lines_of u = takeWhile (\<lambda>c. c \<noteq> NL) u # lines_of (drop 1 (dropWhile (\<lambda>c. c \<noteq> NL) u))"
proof (induction u)
  case Nil
  then show ?case by simp
next
  case (Cons c u)
  show ?case
  proof (cases "c = NL")
    case True
    then show ?thesis by simp
  next
    case False
    show ?thesis
    proof (cases "u = []")
      case True
      with False show ?thesis by simp
    next
      case ne: False
      with Cons.IH have "lines_of u
          = takeWhile (\<lambda>c. c \<noteq> NL) u # lines_of (drop 1 (dropWhile (\<lambda>c. c \<noteq> NL) u))"
        by simp
      then have "hd (lines_of u) = takeWhile (\<lambda>c. c \<noteq> NL) u"
        and "tl (lines_of u) = lines_of (drop 1 (dropWhile (\<lambda>c. c \<noteq> NL) u))"
        by simp_all
      with False ne show ?thesis by simp
    qed
  qed
qed

lemma split_nl_lines_of:
  "u \<noteq> [] \<Longrightarrow> last u \<noteq> NL \<Longrightarrow> split_nl u = lines_of u"
proof (induction u)
  case Nil
  then show ?case by simp
next
  case (Cons c u)
  show ?case
  proof (cases "u = []")
    case True
    with Cons.prems show ?thesis by simp
  next
    case False
    with Cons have "split_nl u = lines_of u" by simp
    with False show ?thesis by simp
  qed
qed

lemma find_nn_Cons:
  "find_nn (c # s) =
     (if c = NL \<and> s \<noteq> [] \<and> hd s = NL then Some 0 else map_option Suc (find_nn s))"
  by (cases s) auto

lemma find_nn_Some:
  "find_nn s = Some q \<Longrightarrow> Suc q < length s \<and> s ! q = NL \<and> s ! Suc q = NL"
proof (induction s arbitrary: q)
  case Nil
  then show ?case by simp
next
  case (Cons c s)
  show ?case
  proof (cases "c = NL \<and> s \<noteq> [] \<and> hd s = NL")
    case True
    with Cons.prems have "q = 0" by (simp add: find_nn_Cons)
    with True show ?thesis by (cases s) auto
  next
    case False
    with Cons.prems obtain q' where q: "q = Suc q'" and f: "find_nn s = Some q'"
      by (auto simp: find_nn_Cons)
    from Cons.IH [OF f] q show ?thesis by simp
  qed
qed

lemma find_nn_first:
  "find_nn s = Some q \<Longrightarrow> i < q \<Longrightarrow> \<not> (s ! i = NL \<and> s ! Suc i = NL)"
proof (induction s arbitrary: q i)
  case Nil
  then show ?case by simp
next
  case (Cons c s)
  from Cons.prems obtain q' where q: "q = Suc q'" and f: "find_nn s = Some q'"
    and np: "\<not> (c = NL \<and> s \<noteq> [] \<and> hd s = NL)"
    by (auto simp: find_nn_Cons split: if_splits)
  from f have sne: "s \<noteq> []" by (cases s) auto
  show ?case
  proof (cases i)
    case 0
    with np sne show ?thesis by (simp add: hd_conv_nth)
  next
    case (Suc j)
    with Cons.prems(2) q have "j < q'" by simp
    from Cons.IH [OF f this] Suc show ?thesis by simp
  qed
qed

lemma find_nn_before: "find_nn s = Some (Suc q) \<Longrightarrow> s ! q \<noteq> NL"
  using find_nn_first [of s "Suc q" q] find_nn_Some [of s "Suc q"] by auto

lemma find_nn_None_Cons:
  "find_nn (c # s) = None \<Longrightarrow> find_nn s = None \<and> \<not> (c = NL \<and> s \<noteq> [] \<and> hd s = NL)"
  by (auto simp: find_nn_Cons split: if_splits)

text \<open>The first run of lines, and what follows it.\<close>

lemma first_block_None:
  "find_nn s = None \<Longrightarrow> s \<noteq> [] \<Longrightarrow>
   hd (split_nl s) # takeWhile (\<lambda>x. x \<noteq> []) (tl (split_nl s)) = lines_of s \<and>
   blocks (dropWhile (\<lambda>x. x \<noteq> []) (tl (split_nl s))) = []"
proof (induction s)
  case Nil
  then show ?case by simp
next
  case (Cons c s)
  show ?case
  proof (cases "s = []")
    case True
    then show ?thesis by (simp add: blocks.simps)
  next
    case False
    from find_nn_None_Cons [OF Cons.prems(1)]
    have f: "find_nn s = None" and np: "\<not> (c = NL \<and> hd s = NL)" using False by simp_all
    from Cons.IH [OF f False]
    have ih1: "hd (split_nl s) # takeWhile (\<lambda>x. x \<noteq> []) (tl (split_nl s)) = lines_of s"
      and ih2: "blocks (dropWhile (\<lambda>x. x \<noteq> []) (tl (split_nl s))) = []"
      by simp_all
    show ?thesis
    proof (cases "c = NL")
      case True
      with np have "hd s \<noteq> NL" by simp
      with False have hne: "hd (split_nl s) \<noteq> []" by (cases s) auto
      from hne have "takeWhile (\<lambda>x. x \<noteq> []) (split_nl s)
          = hd (split_nl s) # takeWhile (\<lambda>x. x \<noteq> []) (tl (split_nl s))"
        by (intro takeWhile_hd_tl) simp_all
      moreover from hne have "dropWhile (\<lambda>x. x \<noteq> []) (split_nl s)
          = dropWhile (\<lambda>x. x \<noteq> []) (tl (split_nl s))"
        by (intro dropWhile_hd_tl) simp_all
      ultimately show ?thesis using True ih1 ih2 by simp
    next
      case ne: False
      from ih1 have "hd (lines_of s) = hd (split_nl s)"
        and "tl (lines_of s) = takeWhile (\<lambda>x. x \<noteq> []) (tl (split_nl s))"
        by (metis list.sel(1), metis list.sel(3))
      with ne False ih2 show ?thesis by simp
    qed
  qed
qed

lemma first_block_Some:
  "find_nn s = Some q \<Longrightarrow>
   hd (split_nl s) # takeWhile (\<lambda>x. x \<noteq> []) (tl (split_nl s)) = split_nl (take q s) \<and>
   dropWhile (\<lambda>x. x \<noteq> []) (tl (split_nl s)) = [] # split_nl (drop (q + 2) s)"
proof (induction s arbitrary: q)
  case Nil
  then show ?case by simp
next
  case (Cons c s)
  show ?case
  proof (cases "c = NL \<and> s \<noteq> [] \<and> hd s = NL")
    case True
    with Cons.prems have q: "q = 0" by (simp add: find_nn_Cons)
    from True obtain s' where s: "s = NL # s'" by (cases s) auto
    from True q s show ?thesis by simp
  next
    case False
    with Cons.prems obtain q' where q: "q = Suc q'" and f: "find_nn s = Some q'"
      by (auto simp: find_nn_Cons)
    from f have sne: "s \<noteq> []" by (cases s) auto
    from Cons.IH [OF f]
    have ih1: "hd (split_nl s) # takeWhile (\<lambda>x. x \<noteq> []) (tl (split_nl s)) = split_nl (take q' s)"
      and ih2: "dropWhile (\<lambda>x. x \<noteq> []) (tl (split_nl s)) = [] # split_nl (drop (q' + 2) s)"
      by simp_all
    show ?thesis
    proof (cases "c = NL")
      case True
      with False sne have "hd s \<noteq> NL" by simp
      with sne have hne: "hd (split_nl s) \<noteq> []" by (cases s) auto
      from hne have "takeWhile (\<lambda>x. x \<noteq> []) (split_nl s)
          = hd (split_nl s) # takeWhile (\<lambda>x. x \<noteq> []) (tl (split_nl s))"
        by (intro takeWhile_hd_tl) simp_all
      moreover from hne have "dropWhile (\<lambda>x. x \<noteq> []) (split_nl s)
          = dropWhile (\<lambda>x. x \<noteq> []) (tl (split_nl s))"
        by (intro dropWhile_hd_tl) simp_all
      ultimately show ?thesis using True ih1 ih2 q by simp
    next
      case ne: False
      from ih1 have "hd (split_nl (take q' s)) = hd (split_nl s)"
        and "tl (split_nl (take q' s)) = takeWhile (\<lambda>x. x \<noteq> []) (tl (split_nl s))"
        by (metis list.sel(1), metis list.sel(3))
      with ne ih2 q show ?thesis by simp
    qed
  qed
qed

lemma blocks_leading_NL: "blocks (split_nl (dropWhile (\<lambda>c. c = NL) s)) = blocks (split_nl s)"
  by (induction s) (auto simp: blocks.simps)

lemma blocks_non_NL:
  assumes "s \<noteq> []" and "hd s \<noteq> NL"
  shows "blocks (split_nl s) =
     (hd (split_nl s) # takeWhile (\<lambda>x. x \<noteq> []) (tl (split_nl s)))
       # blocks (dropWhile (\<lambda>x. x \<noteq> []) (tl (split_nl s)))"
proof -
  from assms have "hd (split_nl s) \<noteq> []" by (cases s) auto
  moreover have "split_nl s = hd (split_nl s) # tl (split_nl s)" by simp
  ultimately show ?thesis by (metis blocks.simps(2))
qed

lemma blocks_first_None:
  assumes "s \<noteq> []" and "hd s \<noteq> NL" and "find_nn s = None"
  shows "blocks (split_nl s) = [lines_of s]"
  using blocks_non_NL [OF assms(1,2)] first_block_None [OF assms(3,1)] by simp

lemma blocks_first_Some:
  assumes "s \<noteq> []" and "hd s \<noteq> NL" and "find_nn s = Some q"
  shows "blocks (split_nl s) = lines_of (take q s) # blocks (split_nl (drop (q + 2) s))"
    and "0 < q"
proof -
  from find_nn_Some [OF assms(3)] have len: "Suc q < length s" and sq: "s ! q = NL" by simp_all
  from assms(1,2) have "s ! 0 \<noteq> NL" by (simp add: hd_conv_nth)
  with sq show qpos: "0 < q" by (cases q) auto
  then obtain q' where q: "q = Suc q'" by (cases q) auto
  from assms(3) have "s ! q' \<noteq> NL" unfolding q by (rule find_nn_before)
  moreover from len q have "last (take q s) = s ! q'"
    by (simp add: take_Suc_conv_app_nth)
  moreover from len qpos have ne: "take q s \<noteq> []" by auto
  ultimately have "split_nl (take q s) = lines_of (take q s)"
    by (intro split_nl_lines_of) simp_all
  with blocks_non_NL [OF assms(1,2)] first_block_Some [OF assms(3)]
  show "blocks (split_nl s) = lines_of (take q s) # blocks (split_nl (drop (q + 2) s))"
    by (simp add: blocks.simps)
qed

lemma at_eq_0_iff: "0 \<notin> set t \<Longrightarrow> at t p = 0 \<longleftrightarrow> length t \<le> p"
  by (auto simp: at_def dest: nth_mem)

lemma drop_at: "p < length t \<Longrightarrow> drop p t = at t p # drop (Suc p) t"
  by (simp add: at_def Cons_nth_drop_Suc)

lemma at_NL_less: "at t p = NL \<Longrightarrow> p < length t"
  by (rule at_nonzero_less) (simp add: NL_not_0)

lemma skip_newlines_drop:
  "skip_newlines t p = p + length (takeWhile (\<lambda>c. c = NL) (drop p t))"
proof (induction t p rule: skip_newlines.induct)
  case (1 t p)
  show ?case
  proof (cases "at t p = NL")
    case True
    then have "p < length t" by (rule at_NL_less)
    then have "drop p t = at t p # drop (Suc p) t" by (rule drop_at)
    with True "1.IH" show ?thesis by (simp add: skip_newlines_step)
  next
    case False
    have "takeWhile (\<lambda>c. c = NL) (drop p t) = []"
    proof (cases "p < length t")
      case True
      then have "drop p t = at t p # drop (Suc p) t" by (rule drop_at)
      with False show ?thesis by simp
    next
      case False
      then show ?thesis by simp
    qed
    with False show ?thesis by (simp add: skip_newlines_stop)
  qed
qed

lemma drop_skip_newlines:
  "drop (skip_newlines t p) t = dropWhile (\<lambda>c. c = NL) (drop p t)"
  by (simp add: skip_newlines_drop dropWhile_eq_drop add.commute)

lemma strlen_drop: "0 \<notin> set t \<Longrightarrow> strlen t p = length t - p"
proof (induction t p rule: strlen.induct)
  case (1 t p)
  show ?case
  proof (cases "at t p = 0")
    case True
    with "1.prems" show ?thesis by (simp add: strlen_stop at_eq_0_iff)
  next
    case False
    with "1.prems" have "p < length t" by (simp add: at_eq_0_iff)
    with False "1.IH" "1.prems" show ?thesis by (simp add: strlen_step)
  qed
qed

lemma at_Suc_NL_iff:
  "p < length t \<Longrightarrow> at t (Suc p) = NL \<longleftrightarrow> drop (Suc p) t \<noteq> [] \<and> hd (drop (Suc p) t) = NL"
  by (auto simp: at_def hd_drop_conv_nth NL_not_0)

lemma strstr_nn_drop:
  "0 \<notin> set t \<Longrightarrow> strstr_nn t p = map_option (\<lambda>i. p + i) (find_nn (drop p t))"
proof (induction t p rule: strstr_nn.induct)
  case (1 t p)
  show ?case
  proof (cases "at t p = 0")
    case True
    with "1.prems" show ?thesis by (simp add: strstr_nn_stop at_eq_0_iff)
  next
    case False
    with "1.prems" have lt: "p < length t" by (simp add: at_eq_0_iff)
    then have d: "drop p t = at t p # drop (Suc p) t" by (rule drop_at)
    show ?thesis
    proof (cases "at t p = NL \<and> at t (Suc p) = NL")
      case True
      with lt have "drop (Suc p) t \<noteq> [] \<and> hd (drop (Suc p) t) = NL"
        by (simp add: at_Suc_NL_iff)
      with True d show ?thesis by (simp add: strstr_nn_found find_nn_Cons)
    next
      case nf: False
      with lt have "\<not> (at t p = NL \<and> drop (Suc p) t \<noteq> [] \<and> hd (drop (Suc p) t) = NL)"
        by (simp add: at_Suc_NL_iff)
      then have "find_nn (drop p t) = map_option Suc (find_nn (drop (Suc p) t))"
        unfolding d find_nn_Cons by auto
      moreover from False nf "1.IH" "1.prems"
      have "strstr_nn t (Suc p) = map_option (\<lambda>i. Suc p + i) (find_nn (drop (Suc p) t))"
        by simp
      moreover from False nf have "strstr_nn t p = strstr_nn t (Suc p)"
        by (rule strstr_nn_step)
      ultimately show ?thesis by (simp add: option.map_comp comp_def)
    qed
  qed
qed

lemma find_line_end_drop:
  "e \<le> length t \<Longrightarrow>
   find_line_end t e p = p + length (takeWhile (\<lambda>c. c \<noteq> NL) (take (e - p) (drop p t)))"
proof (induction t e p rule: find_line_end.induct)
  case (1 t e p)
  show ?case
  proof (cases "p < e")
    case True
    with "1.prems" have "p < length t" by simp
    then have d: "drop p t = at t p # drop (Suc p) t" by (rule drop_at)
    from True have tk: "take (e - p) (drop p t) = at t p # take (e - Suc p) (drop (Suc p) t)"
      by (simp add: d take_Cons')
    show ?thesis
    proof (cases "at t p \<noteq> NL")
      case ne: True
      with True "1.IH" "1.prems" show ?thesis by (simp add: find_line_end_step tk)
    next
      case False
      then show ?thesis by (simp add: find_line_end_stop_eq tk)
    qed
  next
    case False
    then show ?thesis by (simp add: find_line_end_stop_eq)
  qed
qed

lemma map_at_upt: "p + k \<le> length t \<Longrightarrow> map (at t) [p ..< p + k] = take k (drop p t)"
  by (rule nth_equalityI) (auto simp: at_def)

lemma c_str_snoc_0: "0 \<notin> set s \<Longrightarrow> c_str (s @ [0]) = s"
  using c_str_append_nul [of s "[]"] by simp

lemma line_at_drop:
  assumes nf: "0 \<notin> set t" and e: "e \<le> length t" and p: "p \<le> e"
  shows "strdup (line_at t e p) = takeWhile (\<lambda>c. c \<noteq> NL) (take (e - p) (drop p t))"
proof -
  let ?u = "take (e - p) (drop p t)"
  let ?l = "takeWhile (\<lambda>c. c \<noteq> NL) ?u"
  have fle: "find_line_end t e p - p = length ?l"
    using find_line_end_drop [OF e, of p] by simp
  have "length ?l \<le> length ?u" by (rule length_takeWhile_le)
  also have "length ?u \<le> e - p" by simp
  finally have k: "length ?l \<le> e - p" .
  with e p have pk: "p + length ?l \<le> length t" by simp
  have "take (length ?l) (drop p t) = take (length ?l) ?u"
    using k by (simp add: min_def)
  also have "\<dots> = ?l" by (rule takeWhile_eq_take [symmetric])
  finally have tk: "take (length ?l) (drop p t) = ?l" .
  have nz: "0 \<notin> set ?l" using nf by (meson in_set_dropD in_set_takeD set_takeWhileD)
  then have tw: "takeWhile (\<lambda>c. c \<noteq> 0) ?l = ?l"
    by (intro takeWhile_eq_all_conv [THEN iffD2]) auto
  have "strncpy t p (length ?l) = ?l"
    unfolding strncpy_def map_at_upt [OF pk] tk by (simp add: tw Let_def)
  then have "line_at t e p = ?l @ [0]" by (simp add: line_at_def fle)
  with nz show ?thesis by (simp add: strdup_def c_str_snoc_0)
qed

lemma next_line_drop:
  assumes e: "e \<le> length t" and p: "p \<le> e"
  shows "take (e - next_line t e p) (drop (next_line t e p) t)
     = drop 1 (dropWhile (\<lambda>c. c \<noteq> NL) (take (e - p) (drop p t)))"
proof -
  let ?u = "take (e - p) (drop p t)"
  let ?l = "takeWhile (\<lambda>c. c \<noteq> NL) ?u"
  let ?f = "find_line_end t e p"
  have f: "?f = p + length ?l" using e by (rule find_line_end_drop)
  have fe: "?f \<le> e" using p by (rule find_line_end_le)
  have dw: "dropWhile (\<lambda>c. c \<noteq> NL) ?u = take (e - ?f) (drop ?f t)"
    by (simp add: dropWhile_eq_drop f drop_take add.commute)
  show ?thesis
  proof (cases "?f < e")
    case True
    then have "at t ?f = NL" by (rule find_line_end_stop)
    with True have "next_line t e p = Suc ?f" by (simp add: next_line_def Let_def)
    then show ?thesis by (simp add: dw drop_take)
  next
    case False
    with fe have eq: "?f = e" by simp
    then have "next_line t e p = e" by (simp add: next_line_def Let_def)
    with eq show ?thesis by (simp add: dw)
  qed
qed

lemma addLineToParagraph_ok:
  "lines (fst (addLineToParagraph no_failure para line n)) = lines para @ [strdup line]"
  by (simp add: addLineToParagraph_def no_failure_def Let_def)

lemma addParagraphToDocument_ok:
  "paragraphs (fst (addParagraphToDocument no_failure doc para n)) = paragraphs doc @ [para]"
  by (simp add: addParagraphToDocument_def no_failure_def Let_def)

lemma parse_lines_ok:
  "0 \<notin> set t \<Longrightarrow> e \<le> length t \<Longrightarrow> p \<le> e \<Longrightarrow>
   \<exists>para' n'. parse_lines no_failure t e p para n = (Some para', n') \<and>
     lines para' = lines para @ lines_of (take (e - p) (drop p t))"
proof (induction "e - p" arbitrary: p para n rule: less_induct)
  case less
  note nf = \<open>0 \<notin> set t\<close> and e = \<open>e \<le> length t\<close> and p = \<open>p \<le> e\<close>
  let ?u = "take (e - p) (drop p t)"
  show ?case
  proof (cases "p < e")
    case False
    with p have "?u = []" by simp
    with False show ?thesis by (simp add: parse_lines_stop)
  next
    case True
    with e nf have nz: "at t p \<noteq> 0" by (simp add: at_eq_0_iff)
    from True e have une: "?u \<noteq> []" by simp
    let ?para = "fst (addLineToParagraph no_failure para (line_at t e p) (n + 1))"
    let ?n = "snd (addLineToParagraph no_failure para (line_at t e p) (n + 1))"
    let ?q = "next_line t e p"
    have step: "parse_lines no_failure t e p para n = parse_lines no_failure t e ?q ?para ?n"
      using True nz by (intro parse_lines_step) (simp_all add: no_failure_def)
    from True have gt: "p < ?q" by (rule next_line_gt)
    from p have le: "?q \<le> e" by (rule next_line_le)
    from gt le have "e - ?q < e - p" by simp
    from less.hyps [OF this nf e le, of ?para ?n]
    obtain para' n' where r: "parse_lines no_failure t e ?q ?para ?n = (Some para', n')"
      and l: "lines para' = lines ?para @ lines_of (take (e - ?q) (drop ?q t))"
      by blast
    have "lines ?para = lines para @ [takeWhile (\<lambda>c. c \<noteq> NL) ?u]"
      by (simp add: addLineToParagraph_ok line_at_drop [OF nf e p])
    with l have "lines para' = lines para @ takeWhile (\<lambda>c. c \<noteq> NL) ?u
        # lines_of (drop 1 (dropWhile (\<lambda>c. c \<noteq> NL) ?u))"
      by (simp add: next_line_drop [OF e p])
    also have "takeWhile (\<lambda>c. c \<noteq> NL) ?u # lines_of (drop 1 (dropWhile (\<lambda>c. c \<noteq> NL) ?u))
        = lines_of ?u"
      using une by (rule lines_of_line [symmetric])
    finally show ?thesis using step r by simp
  qed
qed

lemma createParagraph_ok:
  "createParagraph no_failure n = (Some \<lparr>lines = [], capacity = 8\<rparr>, Suc (Suc n))"
  by (simp add: createParagraph_def no_failure_def)

lemma createDocument_ok:
  "createDocument no_failure n = (Some \<lparr>paragraphs = [], dcapacity = 8\<rparr>, Suc (Suc n))"
  by (simp add: createDocument_def no_failure_def)

lemma blocks_all_NL: "dropWhile (\<lambda>c. c = NL) s = [] \<Longrightarrow> blocks (split_nl s) = []"
proof -
  assume a: "dropWhile (\<lambda>c. c = NL) s = []"
  have "blocks (split_nl []) = []" by (simp add: blocks.simps)
  then have "blocks (split_nl (dropWhile (\<lambda>c. c = NL) s)) = []"
    by (simp only: a)
  then show ?thesis by (simp only: blocks_leading_NL)
qed

lemma parse_paragraphs_ok:
  "0 \<notin> set t \<Longrightarrow> p \<le> length t \<Longrightarrow>
   \<exists>doc' n'. parse_paragraphs no_failure t p doc n = (Some doc', n') \<and>
     document_lines doc' = document_lines doc @ blocks (split_nl (drop p t))"
proof (induction "length t - p" arbitrary: p doc n rule: less_induct)
  case less
  note nf = \<open>0 \<notin> set t\<close> and p = \<open>p \<le> length t\<close>
  let ?s = "skip_newlines t p"
  let ?s' = "drop ?s t"
  have s': "?s' = dropWhile (\<lambda>c. c = NL) (drop p t)" by (rule drop_skip_newlines)
  have ps: "p \<le> ?s" by (rule skip_newlines_ge)
  show ?case
  proof (cases "at t p = 0 \<or> at t ?s = 0")
    case True
    with nf ps have "length t \<le> ?s" by (auto simp: at_eq_0_iff)
    then have "?s' = []" by simp
    with s' have "blocks (split_nl (drop p t)) = []" by (simp add: blocks_all_NL)
    with True show ?thesis by (simp add: parse_paragraphs_stop)
  next
    case False
    then have nz: "at t p \<noteq> 0" and nzs: "at t ?s \<noteq> 0" by simp_all
    from nzs nf have slt: "?s < length t" by (simp add: at_eq_0_iff)
    then have sne: "?s' \<noteq> []" by simp
    have hd: "hd ?s' \<noteq> NL" using sne unfolding s' by (rule hd_dropWhile)
    have bl: "blocks (split_nl (drop p t)) = blocks (split_nl ?s')"
      unfolding s' by (rule blocks_leading_NL [symmetric])
    let ?e = "para_end t ?s"
    let ?nx = "next_para t ?s"
    have st: "strstr_nn t ?s = map_option (\<lambda>i. ?s + i) (find_nn ?s')"
      using nf by (rule strstr_nn_drop)
    have ele: "?s \<le> ?e" by (rule para_end_ge)
    have bounds: "?e \<le> length t \<and> ?nx \<le> length t \<and>
        blocks (split_nl ?s') = lines_of (take (?e - ?s) ?s') # blocks (split_nl (drop ?nx t))"
    proof (cases "find_nn ?s'")
      case None
      with st have e: "?e = length t" and nx: "?nx = length t"
        using slt by (simp_all add: para_end_def next_para_def strlen_drop [OF nf])
      from blocks_first_None [OF sne hd None] e nx show ?thesis
        by (simp add: blocks.simps)
    next
      case (Some q)
      with st have e: "?e = ?s + q" and nx: "?nx = ?s + q + 2"
        by (simp_all add: para_end_def next_para_def)
      from find_nn_Some [OF Some] have "Suc q < length ?s'" by simp
      then have "?s + q + 2 \<le> length t" by simp
      with blocks_first_Some(1) [OF sne hd Some] e nx show ?thesis
        by (simp add: add.commute add.left_commute)
    qed
    then have el: "?e \<le> length t" and nxl: "?nx \<le> length t"
      and bs: "blocks (split_nl ?s') = lines_of (take (?e - ?s) ?s') # blocks (split_nl (drop ?nx t))"
      by simp_all
    from parse_lines_ok [OF nf el ele, of "\<lparr>lines = [], capacity = 8\<rparr>" "Suc (Suc n)"]
    obtain para' n2 where pl: "parse_lines no_failure t ?e ?s \<lparr>lines = [], capacity = 8\<rparr> (Suc (Suc n))
          = (Some para', n2)"
      and ln: "lines para' = lines_of (take (?e - ?s) ?s')"
      by auto
    let ?doc = "fst (addParagraphToDocument no_failure doc para' n2)"
    let ?n = "snd (addParagraphToDocument no_failure doc para' n2)"
    have step: "parse_paragraphs no_failure t p doc n = parse_paragraphs no_failure t ?nx ?doc ?n"
      using nz nzs by (simp add: parse_paragraphs_step createParagraph_ok pl)
    from next_para_gt [OF nzs] ps have "p < ?nx" by simp
    with nxl have "length t - ?nx < length t - p" by simp
    from less.hyps [OF this nf nxl, of ?doc ?n]
    obtain doc' n' where r: "parse_paragraphs no_failure t ?nx ?doc ?n = (Some doc', n')"
      and dl: "document_lines doc' = document_lines ?doc @ blocks (split_nl (drop ?nx t))"
      by blast
    have "document_lines ?doc = document_lines doc @ [lines para']"
      by (simp add: document_lines_def addParagraphToDocument_ok)
    with dl ln bs bl have "document_lines doc' = document_lines doc @ blocks (split_nl (drop p t))"
      by simp
    with step r show ?thesis by simp
  qed
qed

lemma parseDocument_ok:
  "\<exists>doc. parseDocument no_failure mem = Some doc \<and>
     document_lines doc = blocks (split_nl (c_str mem))"
proof -
  have "0 \<notin> set (c_str mem)" by (rule c_str_not_nul)
  from parse_paragraphs_ok [OF this, of 0 "\<lparr>paragraphs = [], dcapacity = 8\<rparr>" "Suc (Suc 0)"]
  obtain doc n where "parse_paragraphs no_failure (c_str mem) 0 \<lparr>paragraphs = [], dcapacity = 8\<rparr> (Suc (Suc 0))
      = (Some doc, n)"
    and "document_lines doc = blocks (split_nl (c_str mem))"
    by (auto simp: document_lines_def)
  then have "parseDocument no_failure (c_str mem) = Some doc \<and>
     document_lines doc = blocks (split_nl (c_str mem))"
    by (simp add: parseDocument_def createDocument_ok)
  then show ?thesis by (auto simp: parseDocument_c_str)
qed

lemma blocks_not_Nil: "b \<in> set (blocks ls) \<Longrightarrow> b \<noteq> []"
  by (induction ls rule: blocks.induct) (auto simp: blocks.simps split: if_splits)

lemmas blocks_eval = blocks.simps split_nl.simps c_str_def NL_def

text \<open>
  C4: when no allocation fails, the parser returns a document for every input, and every
  paragraph of it has at least one line.
\<close>

theorem parseDocument_paragraphs_not_empty:
  "\<exists>doc. parseDocument no_failure mem = Some doc \<and>
     (\<forall>para \<in> set (paragraphs doc). 1 \<le> lineCount para)"
proof -
  from parseDocument_ok [of mem] obtain doc where d: "parseDocument no_failure mem = Some doc"
    and l: "document_lines doc = blocks (split_nl (c_str mem))" by blast
  have "1 \<le> lineCount para" if "para \<in> set (paragraphs doc)" for para
  proof -
    from that have "lines para \<in> set (document_lines doc)" by (simp add: document_lines_def)
    with l have "lines para \<noteq> []" by (simp add: blocks_not_Nil)
    then show ?thesis by (cases "lines para") (simp_all add: lineCount_def)
  qed
  with d show ?thesis by blast
qed

theorem parseDocument_paragraphs_not_empty_witness:
  "\<exists>doc. parseDocument no_failure [0x61, 0x0A, 0x62, 0x0A, 0x0A, 0x0A, 0x63, 0x0A] = Some doc \<and>
     map lines (paragraphs doc) = [[[0x61], [0x62]], [[0x63]]] \<and>
     list_all (\<lambda>para. 1 \<le> lineCount para) (paragraphs doc)"
proof -
  from parseDocument_paragraphs_not_empty [of "[0x61, 0x0A, 0x62, 0x0A, 0x0A, 0x0A, 0x63, 0x0A]"]
  obtain doc where d: "parseDocument no_failure [0x61, 0x0A, 0x62, 0x0A, 0x0A, 0x0A, 0x63, 0x0A] = Some doc"
    and l: "\<forall>para \<in> set (paragraphs doc). 1 \<le> lineCount para"
    by blast
  have e: "parseDocument no_failure [0x61, 0x0A, 0x62, 0x0A, 0x0A, 0x0A, 0x63, 0x0A]
      = Some \<lparr>paragraphs = [\<lparr>lines = [[0x61], [0x62]], capacity = 8\<rparr>,
                             \<lparr>lines = [[0x63]], capacity = 8\<rparr>], dcapacity = 8\<rparr>"
    by (simp add: parse_eval)
  from d e have "doc = \<lparr>paragraphs = [\<lparr>lines = [[0x61], [0x62]], capacity = 8\<rparr>,
                             \<lparr>lines = [[0x63]], capacity = 8\<rparr>], dcapacity = 8\<rparr>"
    by (simp only: option.inject)
  then have a: "map lines (paragraphs doc) = [[[0x61], [0x62]], [[0x63]]]" by simp
  from l have b: "list_all (\<lambda>para. 1 \<le> lineCount para) (paragraphs doc)"
    by (simp only: list_all_iff)
  show ?thesis by (rule exI [of _ doc]) (simp only: d a b simp_thms)
qed

text \<open>
  C5: a paragraph boundary is a run of two or more newline bytes, that is, one or more
  blank lines, and a single newline byte only ends a line.  When no allocation fails, the
  paragraphs of the document are the maximal runs of lines of the text that are not
  blank, each with its lines in order; so the number of paragraphs is the number of these
  runs.
\<close>

theorem parseDocument_paragraph_runs:
  "\<exists>doc. parseDocument no_failure mem = Some doc \<and>
     document_lines doc = blocks (split_nl (c_str mem)) \<and>
     paragraphCount doc = int (length (blocks (split_nl (c_str mem))))"
proof -
  from parseDocument_ok [of mem] obtain doc where d: "parseDocument no_failure mem = Some doc"
    and l: "document_lines doc = blocks (split_nl (c_str mem))" by blast
  from l have "length (paragraphs doc) = length (blocks (split_nl (c_str mem)))"
    by (metis document_lines_def length_map)
  with d l show ?thesis by (simp add: paragraphCount_def)
qed

theorem parseDocument_paragraph_runs_witness:
  "\<exists>doc. parseDocument no_failure [0x0A, 0x61, 0x0A, 0x62, 0x0A, 0x0A, 0x0A, 0x63, 0x0A] = Some doc \<and>
     document_lines doc = [[[0x61], [0x62]], [[0x63]]] \<and>
     paragraphCount doc = 2"
proof -
  have b: "blocks (split_nl (c_str [0x0A, 0x61, 0x0A, 0x62, 0x0A, 0x0A, 0x0A, 0x63, 0x0A]))
      = [[[0x61], [0x62]], [[0x63]]]"
    by (simp add: blocks_eval)
  from parseDocument_paragraph_runs [of "[0x0A, 0x61, 0x0A, 0x62, 0x0A, 0x0A, 0x0A, 0x63, 0x0A]"]
  show ?thesis unfolding b by simp
qed

section \<open>The renderer: claim C3\<close>

lemma print_line_centered_line:
  "print_line dec wcw tw
     = (\<lambda>L. centered_line tw (getDisplayWidth dec wcw (c_str L)) (c_str L))"
  by (rule ext)
    (simp add: print_line_def centered_line_def Let_def padding_of_max getDisplayWidth_c_str)

lemma join_Cons_if: "join sep (x # xs) = x @ (if xs \<noteq> [] then sep else []) @ join sep xs"
  by (cases xs) simp_all

lemma print_paragraphs_render:
  "print_paragraphs dec wcw tw ps
     = render (getDisplayWidth dec wcw) tw (map (map c_str) (map lines ps))"
proof (induction ps)
  case Nil
  show ?case by (simp add: render_def)
next
  case (Cons para rest)
  have "print_paragraphs dec wcw tw (para # rest)
      = concat (map (print_line dec wcw tw) (lines para))
        @ (if rest \<noteq> [] then [NL] else [])
        @ render (getDisplayWidth dec wcw) tw (map (map c_str) (map lines rest))"
    by (simp add: Cons.IH)
  also have "concat (map (print_line dec wcw tw) (lines para))
      = concat (map (\<lambda>L. centered_line tw (getDisplayWidth dec wcw L) L) (map c_str (lines para)))"
    by (simp add: print_line_centered_line comp_def)
  finally show ?case
    by (simp add: render_def join_Cons_if)
qed

lemma split_nl_bytes: "L \<in> set (split_nl s) \<Longrightarrow> set L \<subseteq> set s"
proof (induction s arbitrary: L)
  case Nil
  then show ?case by simp
next
  case (Cons c s)
  show ?case
  proof (cases "c = NL")
    case True
    with Cons.prems have "L = [] \<or> L \<in> set (split_nl s)" by simp
    with Cons.IH show ?thesis by auto
  next
    case False
    from split_nl_not_Nil [of s] obtain h t where ht: "split_nl s = h # t"
      by (cases "split_nl s") auto
    from False Cons.prems ht have "L = c # h \<or> L \<in> set t" by simp
    moreover have "set h \<subseteq> set s" by (rule Cons.IH) (simp add: ht)
    moreover have "set L \<subseteq> set s" if "L \<in> set t" using that by (intro Cons.IH) (simp add: ht)
    ultimately show ?thesis by auto
  qed
qed

lemma blocks_lines: "P \<in> set (blocks ls) \<Longrightarrow> set P \<subseteq> set ls"
proof (induction ls arbitrary: P rule: blocks.induct)
  case 1
  then show ?case by simp
next
  case (2 l ls)
  show ?case
  proof (cases "l = []")
    case True
    with "2.prems" have "P \<in> set (blocks ls)" by (simp add: blocks.simps)
    with "2.IH"(1) [OF True] show ?thesis by auto
  next
    case False
    with "2.prems" have "P = l # takeWhile (\<lambda>x. x \<noteq> []) ls
        \<or> P \<in> set (blocks (dropWhile (\<lambda>x. x \<noteq> []) ls))"
      by (simp add: blocks.simps)
    then show ?thesis
    proof
      assume "P = l # takeWhile (\<lambda>x. x \<noteq> []) ls"
      then show ?thesis by (auto dest: set_takeWhileD)
    next
      assume "P \<in> set (blocks (dropWhile (\<lambda>x. x \<noteq> []) ls))"
      then have "set P \<subseteq> set (dropWhile (\<lambda>x. x \<noteq> []) ls)" by (rule "2.IH"(2) [OF False])
      then show ?thesis by (auto dest: set_dropWhileD)
    qed
  qed
qed

lemma blocks_c_str:
  "map (map c_str) (blocks (split_nl (c_str mem))) = blocks (split_nl (c_str mem))"
proof -
  have "c_str L = L" if "P \<in> set (blocks (split_nl (c_str mem)))" and "L \<in> set P" for P L
  proof -
    from that have "L \<in> set (split_nl (c_str mem))" using blocks_lines by blast
    then have "set L \<subseteq> set (c_str mem)" by (rule split_nl_bytes)
    with c_str_not_nul [of mem] have "0 \<notin> set L" by blast
    then show ?thesis by (rule c_str_no_nul)
  qed
  then have "map c_str P = P" if "P \<in> set (blocks (split_nl (c_str mem)))" for P
    using that by (simp add: map_idI)
  then show ?thesis by (simp add: map_idI)
qed

text \<open>
  C3: for every line \<open>L\<close> it emits, with \<open>w\<close> the display width of \<open>L\<close>, the renderer writes
  exactly \<open>max ((terminalColumns - w) / 2) 0\<close> space bytes, the division truncating towards
  zero, then the bytes of \<open>L\<close>, then one newline.  This is what \<^verbatim>\<open>printCenteredDocument\<close>
  writes for a document, line after line, with one more newline between two paragraphs;
  the lines are the strings stored in the document.  It is what the program writes, with
  exit status 0, for the lines of the paragraphs of its input when no allocation fails.
  When \<open>w \<le> terminalColumns\<close> the number of spaces is the floor of
  \<open>(terminalColumns - w) / 2\<close>.
\<close>

theorem printCenteredDocument_centered:
  "printCenteredDocument dec wcw os doc
     = render (getDisplayWidth dec wcw) (getTerminalWidth os)
         (map (map c_str) (document_lines doc)) \<and>
   cntr_main no_failure dec wcw os mem
     = (render (getDisplayWidth dec wcw) (getTerminalWidth os) (blocks (split_nl (c_str mem))), 0) \<and>
   centered_line terminalColumns w L
     = replicate (nat (max ((terminalColumns - w) sdiv 2) 0)) SP @ L @ [NL] \<and>
   (w \<le> terminalColumns \<longrightarrow>
      centered_line terminalColumns w L
        = replicate (nat ((terminalColumns - w) div 2)) SP @ L @ [NL])"
proof (intro conjI impI)
  have r: "printCenteredDocument dec wcw os doc
     = render (getDisplayWidth dec wcw) (getTerminalWidth os)
         (map (map c_str) (document_lines doc))" for doc
    by (simp add: printCenteredDocument_def document_lines_def print_paragraphs_render)
  show "printCenteredDocument dec wcw os doc
     = render (getDisplayWidth dec wcw) (getTerminalWidth os)
         (map (map c_str) (document_lines doc))"
    by (rule r)
  from parseDocument_ok [of mem] obtain d where d: "parseDocument no_failure mem = Some d"
    and l: "document_lines d = blocks (split_nl (c_str mem))" by blast
  from d have "cntr_main no_failure dec wcw os mem = (printCenteredDocument dec wcw os d, 0)"
    by (simp add: cntr_main_def)
  also have "printCenteredDocument dec wcw os d
      = render (getDisplayWidth dec wcw) (getTerminalWidth os)
          (map (map c_str) (blocks (split_nl (c_str mem))))"
    by (simp only: r l)
  finally show "cntr_main no_failure dec wcw os mem
     = (render (getDisplayWidth dec wcw) (getTerminalWidth os) (blocks (split_nl (c_str mem))), 0)"
    by (simp only: blocks_c_str)
  show "centered_line terminalColumns w L
     = replicate (nat (max ((terminalColumns - w) sdiv 2) 0)) SP @ L @ [NL]"
    by (rule centered_line_def)
next
  assume le: "w \<le> terminalColumns"
  then have "0 \<le> terminalColumns - w" by simp
  then have "(terminalColumns - w) sdiv 2 = (terminalColumns - w) div 2"
    by (rule sdiv_2_nonneg)
  moreover from le have "0 \<le> (terminalColumns - w) div 2" by simp
  ultimately have "max ((terminalColumns - w) sdiv 2) 0 = (terminalColumns - w) div 2"
    by simp
  then show "centered_line terminalColumns w L
        = replicate (nat ((terminalColumns - w) div 2)) SP @ L @ [NL]"
    by (simp add: centered_line_def)
qed

theorem printCenteredDocument_centered_witness:
  "cntr_main no_failure utf8_decoder wcwidth_sample (tty 20)
     [0x68, 0x69, 0x0A, 0x0A, 0xE6, 0x97, 0xA5, 0x0A, 0x77, 0x0A]
   = (replicate 9 SP @ [0x68, 0x69, NL] @ [NL]
      @ replicate 9 SP @ [0xE6, 0x97, 0xA5, NL] @ replicate 9 SP @ [0x77, NL], 0) \<and>
   centered_line 20 2 [0xE6, 0x97, 0xA5] = replicate 9 SP @ [0xE6, 0x97, 0xA5, NL]"
proof -
  let ?mem = "[0x68, 0x69, 0x0A, 0x0A, 0xE6, 0x97, 0xA5, 0x0A, 0x77, 0x0A] :: byte list"
  have b: "blocks (split_nl (c_str ?mem)) = [[[0x68, 0x69]], [[0xE6, 0x97, 0xA5], [0x77]]]"
    by (simp add: blocks_eval)
  have t: "getTerminalWidth (tty 20) = 20" by (simp add: getTerminalWidth_def tty_def)
  have w1: "getDisplayWidth utf8_decoder wcwidth_sample [0x68, 0x69] = 2"
    by (simp add: width_eval)
  have w2: "getDisplayWidth utf8_decoder wcwidth_sample [0xE6, 0x97, 0xA5] = 2"
    by (simp add: width_eval)
  have w3: "getDisplayWidth utf8_decoder wcwidth_sample [0x77] = 1"
    by (simp add: width_eval)
  have le: "(2::int) \<le> 20" by simp
  note inst = printCenteredDocument_centered [of utf8_decoder wcwidth_sample "tty 20" _ ?mem 20 2]
  from inst [THEN conjunct2, THEN conjunct2, THEN conjunct2, rule_format, OF le]
  have c2: "centered_line 20 2 L = replicate 9 SP @ L @ [NL]" for L by simp
  have c1: "centered_line 20 1 L = replicate 9 SP @ L @ [NL]" for L
    by (simp add: centered_line_def signed_divide_int_def)
  from inst [THEN conjunct2, THEN conjunct1]
  have "cntr_main no_failure utf8_decoder wcwidth_sample (tty 20) ?mem
      = (replicate 9 SP @ [0x68, 0x69, NL] @ [NL]
         @ replicate 9 SP @ [0xE6, 0x97, 0xA5, NL] @ replicate 9 SP @ [0x77, NL], 0)"
    unfolding b t by (simp add: render_def w1 w2 w3 c1 c2)
  with c2 [of "[0xE6, 0x97, 0xA5]"] show ?thesis by simp
qed

section \<open>The round trip: claim C1\<close>

text \<open>
  C1, as stated: joining the lines of each paragraph with one newline and the paragraphs
  with two gives the input without the newline bytes at its ends.  The parser skips every
  newline byte between two paragraphs, so a run of three of them comes back as two: the
  input \<^verbatim>\<open>"a\n\n\nb"\<close> gives \<^verbatim>\<open>"a\n\nb"\<close>.
\<close>

theorem parseDocument_round_trip_three_newlines:
  "parseDocument no_failure [0x61, 0x0A, 0x0A, 0x0A, 0x62]
     = Some \<lparr>paragraphs = [\<lparr>lines = [[0x61]], capacity = 8\<rparr>, \<lparr>lines = [[0x62]], capacity = 8\<rparr>],
             dcapacity = 8\<rparr> \<and>
   unparse \<lparr>paragraphs = [\<lparr>lines = [[0x61]], capacity = 8\<rparr>, \<lparr>lines = [[0x62]], capacity = 8\<rparr>],
            dcapacity = 8\<rparr> = [0x61, 0x0A, 0x0A, 0x62] \<and>
   strip_newlines (c_str [0x61, 0x0A, 0x0A, 0x0A, 0x62]) = [0x61, 0x0A, 0x0A, 0x0A, 0x62]"
  by (simp add: parse_eval unparse_def document_lines_def strip_newlines_def)

lemma strip_newlines_rstrip: "strip_newlines s = rstrip (dropWhile (\<lambda>c. c = NL) s)"
  by (simp add: strip_newlines_def rstrip_def)

lemma rstrip_append_all: "\<forall>c\<in>set y. c = NL \<Longrightarrow> rstrip (x @ y) = rstrip x"
proof -
  assume "\<forall>c\<in>set y. c = NL"
  then have "\<And>c. c \<in> set (rev y) \<Longrightarrow> c = NL" by simp
  then have "dropWhile (\<lambda>c. c = NL) (rev y @ rev x) = dropWhile (\<lambda>c. c = NL) (rev x)"
    by (rule dropWhile_append2)
  then show ?thesis by (simp add: rstrip_def)
qed

lemma rstrip_append: "\<not> (\<forall>c\<in>set y. c = NL) \<Longrightarrow> rstrip (x @ y) = x @ rstrip y"
proof -
  assume "\<not> (\<forall>c\<in>set y. c = NL)"
  then obtain c where "c \<in> set (rev y)" and "\<not> c = NL" by auto
  then have "dropWhile (\<lambda>c. c = NL) (rev y @ rev x) = dropWhile (\<lambda>c. c = NL) (rev y) @ rev x"
    by (rule dropWhile_append1)
  then show ?thesis by (simp add: rstrip_def)
qed

lemma rstrip_id: "x = [] \<or> last x \<noteq> NL \<Longrightarrow> rstrip x = x"
  by (cases x rule: rev_cases) (auto simp: rstrip_def)

lemma join_Cons: "ys \<noteq> [] \<Longrightarrow> join sep (x # ys) = x @ sep @ join sep ys"
  by (cases ys) auto

lemma join_Cons_Cons: "join sep ((c # x) # ys) = c # join sep (x # ys)"
  by (cases ys) auto

lemma join_split_nl: "join [NL] (split_nl s) = s"
proof (induction s)
  case Nil
  show ?case by simp
next
  case (Cons c s)
  show ?case
  proof (cases "c = NL")
    case True
    with Cons show ?thesis by (simp add: join_Cons)
  next
    case False
    have "join [NL] ((c # hd (split_nl s)) # tl (split_nl s))
        = c # join [NL] (hd (split_nl s) # tl (split_nl s))"
      by (rule join_Cons_Cons)
    with False Cons show ?thesis by simp
  qed
qed

lemma join_lines_of:
  "join [NL] (lines_of u) = (if u \<noteq> [] \<and> last u = NL then butlast u else u)"
proof (induction u)
  case Nil
  show ?case by simp
next
  case (Cons c u)
  show ?case
  proof (cases "u = []")
    case True
    then show ?thesis by simp
  next
    case False
    then have ne: "lines_of u \<noteq> []" by (rule lines_of_not_Nil)
    show ?thesis
    proof (cases "c = NL")
      case True
      with False ne Cons show ?thesis by (simp add: join_Cons)
    next
      case nl: False
      have "join [NL] ((c # hd (lines_of u)) # tl (lines_of u))
          = c # join [NL] (hd (lines_of u) # tl (lines_of u))"
        by (rule join_Cons_Cons)
      with nl False ne Cons show ?thesis by simp
    qed
  qed
qed

lemma find_nn_append_None: "find_nn (x @ y) = None \<Longrightarrow> find_nn x = None"
proof (induction x)
  case Nil
  show ?case by simp
next
  case (Cons c x)
  from find_nn_None_Cons [of c "x @ y"] Cons.prems
  have f: "find_nn (x @ y) = None" and np: "\<not> (c = NL \<and> x @ y \<noteq> [] \<and> hd (x @ y) = NL)"
    by simp_all
  from np have "\<not> (c = NL \<and> x \<noteq> [] \<and> hd x = NL)" by auto
  with Cons.IH [OF f] show ?case by (simp add: find_nn_Cons)
qed

lemma find_nn_pair: "find_nn (x @ NL # NL # y) \<noteq> None"
  by (induction x) (auto simp: find_nn_Cons)

lemma find_nn_take_None: "find_nn s = Some q \<Longrightarrow> find_nn (take q s) = None"
proof (induction s arbitrary: q)
  case Nil
  then show ?case by simp
next
  case (Cons c s)
  show ?case
  proof (cases q)
    case 0
    then show ?thesis by simp
  next
    case (Suc q')
    with Cons.prems have f: "find_nn s = Some q'"
      and np: "\<not> (c = NL \<and> s \<noteq> [] \<and> hd s = NL)"
      by (auto simp: find_nn_Cons split: if_splits)
    have "take q' s \<noteq> [] \<Longrightarrow> hd (take q' s) = hd s" by (cases s; cases q') auto
    with np have "\<not> (c = NL \<and> take q' s \<noteq> [] \<and> hd (take q' s) = NL)" by auto
    with Cons.IH [OF f] Suc show ?thesis by (simp add: find_nn_Cons)
  qed
qed

lemma squeeze_Cons:
  "\<not> (a = NL \<and> x \<noteq> [] \<and> hd x = NL) \<Longrightarrow> squeeze_newlines (a # x) = a # squeeze_newlines x"
proof (cases x)
  case Nil
  then show ?thesis by simp
next
  case (Cons b x')
  assume "\<not> (a = NL \<and> x \<noteq> [] \<and> hd x = NL)"
  with Cons show ?thesis by (cases x') auto
qed

lemma squeeze_id: "find_nn x = None \<Longrightarrow> squeeze_newlines x = x"
proof (induction x)
  case Nil
  show ?case by simp
next
  case (Cons a x)
  from find_nn_None_Cons [OF Cons.prems]
  have f: "find_nn x = None" and np: "\<not> (a = NL \<and> x \<noteq> [] \<and> hd x = NL)" by simp_all
  from np have "squeeze_newlines (a # x) = a # squeeze_newlines x" by (rule squeeze_Cons)
  with Cons.IH [OF f] show ?case by simp
qed

lemma squeeze_prefix:
  "u \<noteq> [] \<Longrightarrow> last u \<noteq> NL \<Longrightarrow> find_nn u = None \<Longrightarrow>
   squeeze_newlines (u @ w) = u @ squeeze_newlines w"
proof (induction u)
  case Nil
  then show ?case by simp
next
  case (Cons a u)
  from find_nn_None_Cons [OF Cons.prems(3)]
  have f: "find_nn u = None" and np: "\<not> (a = NL \<and> u \<noteq> [] \<and> hd u = NL)" by simp_all
  show ?case
  proof (cases "u = []")
    case True
    with Cons.prems(2) have "a \<noteq> NL" by simp
    then have "squeeze_newlines (a # w) = a # squeeze_newlines w" by (intro squeeze_Cons) simp
    with True show ?thesis by simp
  next
    case False
    with np have "\<not> (a = NL \<and> u @ w \<noteq> [] \<and> hd (u @ w) = NL)" by auto
    then have "squeeze_newlines (a # u @ w) = a # squeeze_newlines (u @ w)" by (rule squeeze_Cons)
    moreover from False Cons.prems(2) have "last u \<noteq> NL" by simp
    ultimately show ?thesis using Cons.IH [OF False _ f] by simp
  qed
qed

lemma squeeze_gap:
  "y \<noteq> [] \<Longrightarrow> hd y \<noteq> NL \<Longrightarrow>
   squeeze_newlines (NL # NL # replicate j NL @ y) = NL # NL # squeeze_newlines y"
proof (induction j)
  case 0
  then obtain c y' where y: "y = c # y'" and c: "c \<noteq> NL" by (cases y) auto
  have "squeeze_newlines (NL # NL # c # y') = NL # squeeze_newlines (NL # c # y')"
    using c by simp
  also have "squeeze_newlines (NL # c # y') = NL # squeeze_newlines (c # y')"
    using c by (intro squeeze_Cons) simp
  finally show ?case by (simp add: y)
next
  case (Suc j)
  then show ?case by simp
qed

lemma takeWhile_NL_replicate:
  "takeWhile (\<lambda>c. c = NL) s = replicate (length (takeWhile (\<lambda>c. c = NL) s)) NL"
  by (induction s) auto

lemma rstrip_Cons_non_NL: "c \<noteq> NL \<Longrightarrow> rstrip (c # w) \<noteq> [] \<and> hd (rstrip (c # w)) = c"
proof -
  assume c: "c \<noteq> NL"
  show ?thesis
  proof (cases "\<forall>d\<in>set w. d = NL")
    case True
    then have "rstrip ([c] @ w) = rstrip [c]" by (rule rstrip_append_all)
    with c show ?thesis by (simp add: rstrip_def)
  next
    case False
    then have "rstrip ([c] @ w) = [c] @ rstrip w" by (rule rstrip_append)
    then show ?thesis by simp
  qed
qed

lemma split_at_pair:
  assumes "Suc q < length s"
  shows "s = take q s @ s ! q # s ! Suc q # drop (q + 2) s"
proof -
  from assms have "s = take q s @ s ! q # drop (Suc q) s"
    by (intro id_take_nth_drop) simp
  moreover from assms have "drop (Suc q) s = s ! Suc q # drop (Suc (Suc q)) s"
    by (simp add: Cons_nth_drop_Suc)
  ultimately show ?thesis by simp
qed

lemma unparse_blocks:
  "join [NL, NL] (map (join [NL]) (blocks (split_nl t))) = squeeze_newlines (strip_newlines t)"
proof (induction "length t" arbitrary: t rule: less_induct)
  case less
  let ?R = "\<lambda>t. join [NL, NL] (map (join [NL]) (blocks (split_nl t)))"
  let ?s = "dropWhile (\<lambda>c. c = NL) t"
  have bl: "blocks (split_nl t) = blocks (split_nl ?s)" by (rule blocks_leading_NL [symmetric])
  have st: "strip_newlines t = rstrip ?s" by (rule strip_newlines_rstrip)
  show ?case
  proof (cases "?s = []")
    case True
    then have b: "blocks (split_nl t) = []" by (rule blocks_all_NL)
    have "rstrip [] = []" by (simp add: rstrip_def)
    with True st have "strip_newlines t = []" by (simp only:)
    with b show ?thesis by simp
  next
    case False
    then have hd: "hd ?s \<noteq> NL" by (rule hd_dropWhile [of "\<lambda>c. c = NL" t])
    show ?thesis
    proof (cases "find_nn ?s")
      case None
      from blocks_first_None [OF False hd None] bl
      have R: "?R t = (if last ?s = NL then butlast ?s else ?s)"
        using False by (simp add: join_lines_of)
      have rs: "rstrip ?s = (if last ?s = NL then butlast ?s else ?s)"
      proof (cases "last ?s = NL")
        case lnl: True
        have "butlast ?s = [] \<or> last (butlast ?s) \<noteq> NL"
        proof (rule ccontr)
          assume "\<not> (butlast ?s = [] \<or> last (butlast ?s) \<noteq> NL)"
          then have b: "butlast ?s \<noteq> []" and l: "last (butlast ?s) = NL" by simp_all
          have "butlast (butlast ?s) @ NL # NL # []
              = (butlast (butlast ?s) @ [last (butlast ?s)]) @ [last ?s]"
            using lnl l by simp
          also have "\<dots> = butlast ?s @ [last ?s]" using b by simp
          also have "\<dots> = ?s" using False by simp
          finally have "find_nn (butlast (butlast ?s) @ NL # NL # []) = find_nn ?s"
            by (rule arg_cong)
          with None have "find_nn (butlast (butlast ?s) @ NL # NL # []) = None" by simp
          with find_nn_pair [of "butlast (butlast ?s)" "[]"] show False by blast
        qed
        then have "rstrip (butlast ?s) = butlast ?s" by (rule rstrip_id)
        moreover have "rstrip (butlast ?s @ [last ?s]) = rstrip (butlast ?s)"
          using lnl by (intro rstrip_append_all) simp
        moreover have "rstrip (butlast ?s @ [last ?s]) = rstrip ?s"
          using False by simp
        ultimately have "rstrip ?s = butlast ?s" by simp
        with lnl show ?thesis by simp
      next
        case lnn: False
        then have "rstrip ?s = ?s" by (intro rstrip_id) simp
        with lnn show ?thesis by simp
      qed
      have "find_nn (butlast ?s @ [last ?s]) = None" using None False by simp
      then have "find_nn (butlast ?s) = None" by (rule find_nn_append_None)
      with None have "find_nn (if last ?s = NL then butlast ?s else ?s) = None" by simp
      then have "squeeze_newlines (if last ?s = NL then butlast ?s else ?s)
          = (if last ?s = NL then butlast ?s else ?s)"
        by (rule squeeze_id)
      with R rs st show ?thesis by simp
    next
      case (Some q)
      let ?u = "take q ?s"
      let ?rest = "drop (q + 2) ?s"
      from find_nn_Some [OF Some]
      have len: "Suc q < length ?s" and sq: "?s ! q = NL" and sq1: "?s ! Suc q = NL" by simp_all
      from split_at_pair [OF len] sq sq1 have s: "?s = ?u @ NL # NL # ?rest" by simp
      have bs: "blocks (split_nl ?s) = lines_of ?u # blocks (split_nl ?rest)"
        by (rule blocks_first_Some(1) [OF False hd Some])
      have qpos: "0 < q"
        by (rule blocks_first_Some(2) [OF False hd Some])
      from qpos obtain q' where q: "q = Suc q'" by (cases q) auto
      from Some have "?s ! q' \<noteq> NL" unfolding q by (rule find_nn_before)
      moreover from len q have "last ?u = ?s ! q'" by (simp add: take_Suc_conv_app_nth)
      ultimately have lu: "last ?u \<noteq> NL" by simp
      from len qpos have "length ?u = q" by simp
      with qpos have une: "?u \<noteq> []" by (metis length_0_conv less_numeral_extra(3))
      from lu une have ju: "join [NL] (lines_of ?u) = ?u" by (simp add: join_lines_of)
      have fu: "find_nn ?u = None" using Some by (rule find_nn_take_None)
      have "length ?rest < length ?s" using len by simp
      also have "length ?s \<le> length t" by (rule length_dropWhile_le)
      finally have "length ?rest < length t" .
      then have ih: "?R ?rest = squeeze_newlines (strip_newlines ?rest)" by (rule less.hyps)
      let ?w = "dropWhile (\<lambda>c. c = NL) ?rest"
      show ?thesis
      proof (cases "?w = []")
        case True
        then have all: "\<forall>c\<in>set ?rest. c = NL" by (rule dropWhile_eq_Nil_conv [THEN iffD1])
        from True have be: "blocks (split_nl ?rest) = []" by (rule blocks_all_NL)
        have R: "?R t = ?u" by (simp only: bl bs be list.map join.simps ju)
        have "\<forall>c\<in>set (NL # NL # ?rest). c = NL"
        proof
          fix c
          assume "c \<in> set (NL # NL # ?rest)"
          then have "c = NL \<or> c \<in> set ?rest" by (simp only: set_simps insert_iff) blast
          with all show "c = NL" by blast
        qed
        then have "rstrip (?u @ NL # NL # ?rest) = rstrip ?u" by (rule rstrip_append_all)
        also from lu have "rstrip ?u = ?u" by (intro rstrip_id) simp
        finally have ru: "rstrip (?u @ NL # NL # ?rest) = ?u" .
        have "rstrip ?s = rstrip (?u @ NL # NL # ?rest)"
          using s by (rule arg_cong)
        also note ru
        finally have "rstrip ?s = ?u" .
        moreover from fu have "squeeze_newlines ?u = ?u" by (rule squeeze_id)
        ultimately show ?thesis using R st by simp
      next
        case wne: False
        then have hw: "hd ?w \<noteq> NL" by (rule hd_dropWhile [of "\<lambda>c. c = NL" ?rest])
        from wne have "\<exists>c w'. ?w = c # w'" by (rule neq_Nil_conv [THEN iffD1])
        then obtain c w' where w: "?w = c # w'" by blast
        from hw have c: "c \<noteq> NL" unfolding w by simp
        have "blocks (split_nl ?w) = blocks (split_nl ?rest)"
          by (rule blocks_leading_NL)
        with blocks_non_NL [OF wne hw] have bne: "blocks (split_nl ?rest) \<noteq> []"
          by (metis list.distinct(1))
        then have "map (join [NL]) (blocks (split_nl ?rest)) \<noteq> []"
          by (simp only: map_is_Nil_conv not_False_eq_True)
        then have jc: "join [NL, NL] (?u # map (join [NL]) (blocks (split_nl ?rest)))
            = ?u @ [NL, NL] @ ?R ?rest"
          by (rule join_Cons)
        have R: "?R t = ?u @ [NL, NL] @ ?R ?rest" by (simp only: bl bs list.map ju jc)
        let ?j = "length (takeWhile (\<lambda>c. c = NL) ?rest)"
        have "?rest = takeWhile (\<lambda>c. c = NL) ?rest @ ?w"
          by (rule takeWhile_dropWhile_id [symmetric])
        also have "takeWhile (\<lambda>c. c = NL) ?rest = replicate ?j NL"
          by (rule takeWhile_NL_replicate)
        finally have rest: "?rest = replicate ?j NL @ ?w" .
        have "c \<in> set ?w" unfolding w by simp
        with c have wn: "\<not> (\<forall>d\<in>set ?w. d = NL)" by blast
        from c have rw: "rstrip (c # w') \<noteq> [] \<and> hd (rstrip (c # w')) = c"
          by (rule rstrip_Cons_non_NL)
        have "?u @ NL # NL # ?rest = ?u @ NL # NL # (replicate ?j NL @ ?w)"
          using rest by (rule arg_cong)
        with s have "?s = ?u @ NL # NL # (replicate ?j NL @ ?w)" by (rule trans)
        then have "?s = (?u @ NL # NL # replicate ?j NL) @ ?w"
          by (simp only: append_assoc append_Cons)
        then have "rstrip ?s = rstrip ((?u @ NL # NL # replicate ?j NL) @ ?w)"
          by (rule arg_cong)
        also have "\<dots> = (?u @ NL # NL # replicate ?j NL) @ rstrip ?w"
          using wn by (rule rstrip_append)
        finally have rs: "rstrip ?s = ?u @ NL # NL # replicate ?j NL @ rstrip ?w"
          by (simp only: append_assoc append_Cons)
        have g: "squeeze_newlines (NL # NL # replicate ?j NL @ rstrip ?w)
            = NL # NL # squeeze_newlines (rstrip ?w)"
          unfolding w using rw c by (intro squeeze_gap) (simp_all only: simp_thms)
        have "squeeze_newlines (?u @ NL # NL # replicate ?j NL @ rstrip ?w)
            = ?u @ squeeze_newlines (NL # NL # replicate ?j NL @ rstrip ?w)"
          using une lu fu by (rule squeeze_prefix)
        then have sq: "squeeze_newlines (rstrip ?s) = ?u @ NL # NL # squeeze_newlines (rstrip ?w)"
          by (simp only: rs g)
        have sr: "strip_newlines ?rest = rstrip ?w" by (rule strip_newlines_rstrip)
        show ?thesis by (simp only: R ih st sq sr append_Cons append_Nil)
      qed
    qed
  qed
qed

text \<open>
  C1, amended: joining the lines of each paragraph with one newline and the paragraphs
  with two gives the input without the newline bytes at its ends and with every run of
  three or more newline bytes that is left shortened to two.
\<close>

theorem parseDocument_round_trip:
  "\<exists>doc. parseDocument no_failure mem = Some doc \<and>
     unparse doc = squeeze_newlines (strip_newlines (c_str mem))"
  using parseDocument_ok [of mem] by (auto simp: unparse_def unparse_blocks)

theorem parseDocument_round_trip_witness:
  "\<exists>doc. parseDocument no_failure [0x0A, 0x61, 0x0A, 0x62, 0x0A, 0x0A, 0x0A, 0x63, 0x0A, 0x0A] = Some doc \<and>
     unparse doc = [0x61, 0x0A, 0x62, 0x0A, 0x0A, 0x63]"
proof -
  have s: "squeeze_newlines (strip_newlines
        (c_str [0x0A, 0x61, 0x0A, 0x62, 0x0A, 0x0A, 0x0A, 0x63, 0x0A, 0x0A]))
      = [0x61, 0x0A, 0x62, 0x0A, 0x0A, 0x63]"
    by (simp add: strip_newlines_def c_str_def NL_def)
  from parseDocument_round_trip [of "[0x0A, 0x61, 0x0A, 0x62, 0x0A, 0x0A, 0x0A, 0x63, 0x0A, 0x0A]"]
  show ?thesis unfolding s .
qed

section \<open>Failures of the parser: claim C9\<close>

text \<open>
  C9 has two parts.  The first holds: when no allocation fails, \<^verbatim>\<open>parseDocument\<close> returns a
  document for every input, so no content makes the parser fail.
\<close>

lemma parseDocument_total: "parseDocument no_failure mem \<noteq> None"
  using parseDocument_ok [of mem] by auto

text \<open>
  The second part, that every allocation failure reaches the driver as a null document
  and exit status 1, does not hold for the code.  For the input \<^verbatim>\<open>"a"\<close> the requests are
  numbered 0 and 1 (\<^verbatim>\<open>createDocument\<close>), 2 and 3 (\<^verbatim>\<open>createParagraph\<close>), 4 (the buffer
  \<^verbatim>\<open>line\<close>) and 5 (\<^verbatim>\<open>strdup\<close> in \<^verbatim>\<open>addLineToParagraph\<close>).  A failure of one of the first five
  is propagated.  A failure of \<^verbatim>\<open>strdup\<close> is absorbed by \<^verbatim>\<open>addLineToParagraph\<close>, which returns
  nothing to its caller: the parser returns a document whose paragraph has no line, and
  the program prints nothing and exits with status 0.
\<close>

theorem parseDocument_absorbs_strdup_failure:
  "parseDocument (fails_at 0) [0x61] = None \<and>
   parseDocument (fails_at 1) [0x61] = None \<and>
   parseDocument (fails_at 2) [0x61] = None \<and>
   parseDocument (fails_at 3) [0x61] = None \<and>
   parseDocument (fails_at 4) [0x61] = None \<and>
   parseDocument (fails_at 5) [0x61]
     = Some \<lparr>paragraphs = [\<lparr>lines = [], capacity = 8\<rparr>], dcapacity = 8\<rparr> \<and>
   cntr_main (fails_at 5) utf8_decoder wcwidth_sample (tty 20) [0x61] = ([], 0) \<and>
   cntr_main no_failure utf8_decoder wcwidth_sample (tty 20) [0x61] = (replicate 9 0x20 @ [0x61, 0x0A], 0)"
  by (simp add: parse_eval print_eval fails_at_def)

section \<open>The scenarios of the specification\<close>

text \<open>
  The end-to-end scenarios S1 to S6 of the specification, on a terminal of 20 columns:
  the model prints what the specification lists.  (S3 is listed there with ten spaces in
  front of each line of one column; \<open>(20 - 1) / 2\<close> is 9, as its own note says.)
\<close>

lemma scenario_S1:
  "cntr_main no_failure utf8_decoder wcwidth_sample (tty 20)
     [0x68, 0x69, 0x0A]
   = (replicate 9 0x20 @ [0x68, 0x69, 0x0A],
      0)"
  by (simp add: parse_eval print_eval)

lemma scenario_S2:
  "cntr_main no_failure utf8_decoder wcwidth_sample (tty 20)
     [0x68, 0x69, 0x0A, 0x0A, 0x77, 0x6F, 0x72, 0x6C, 0x64, 0x0A]
   = (replicate 9 0x20 @ [0x68, 0x69, 0x0A, 0x0A] @ replicate 7 0x20 @ [0x77, 0x6F, 0x72, 0x6C, 0x64, 0x0A],
      0)"
  by (simp add: parse_eval print_eval)

lemma scenario_S3:
  "cntr_main no_failure utf8_decoder wcwidth_sample (tty 20)
     [0x61, 0x0A, 0x62, 0x0A, 0x0A, 0x63, 0x0A]
   = (replicate 9 0x20 @ [0x61, 0x0A] @ replicate 9 0x20 @ [0x62, 0x0A, 0x0A] @ replicate 9 0x20 @ [0x63, 0x0A],
      0)"
  by (simp add: parse_eval print_eval)

lemma scenario_S4:
  "cntr_main no_failure utf8_decoder wcwidth_sample (tty 20)
     [0x0A, 0x0A, 0x68, 0x69, 0x0A, 0x0A, 0x0A]
   = (replicate 9 0x20 @ [0x68, 0x69, 0x0A],
      0)"
  by (simp add: parse_eval print_eval)

lemma scenario_S5:
  "cntr_main no_failure utf8_decoder wcwidth_sample (tty 20)
     [0xE6, 0x97, 0xA5, 0xE6, 0x9C, 0xAC, 0x0A]
   = (replicate 8 0x20 @ [0xE6, 0x97, 0xA5, 0xE6, 0x9C, 0xAC, 0x0A],
      0)"
  by (simp add: parse_eval print_eval)

lemma scenario_S6:
  "cntr_main no_failure utf8_decoder wcwidth_sample (tty 20)
     [0x54, 0x68, 0x69, 0x73, 0x20, 0x6C, 0x69, 0x6E, 0x65, 0x20, 0x69, 0x73, 0x20, 0x77, 0x69, 0x64, 0x65, 0x72, 0x20, 0x74, 0x68, 0x61, 0x6E, 0x20, 0x74, 0x77, 0x65, 0x6E, 0x74, 0x79, 0x20, 0x63, 0x6F, 0x6C, 0x75, 0x6D, 0x6E, 0x73, 0x0A]
   = ([0x54, 0x68, 0x69, 0x73, 0x20, 0x6C, 0x69, 0x6E, 0x65, 0x20, 0x69, 0x73, 0x20, 0x77, 0x69, 0x64, 0x65, 0x72, 0x20, 0x74, 0x68, 0x61, 0x6E, 0x20, 0x74, 0x77, 0x65, 0x6E, 0x74, 0x79, 0x20, 0x63, 0x6F, 0x6C, 0x75, 0x6D, 0x6E, 0x73, 0x0A],
      0)"
  by (simp add: parse_eval print_eval)

end
